theory Spec2Isabelle
  imports Main "HOL-Library.Word" "HOL-Library.Monad_Syntax"
begin

unbundle bit_operations_syntax

chapter \<open>The Linux crash handler (CrashHandlerLinux.cpp)\<close>

text \<open>
  A shallow embedding of \<^verbatim>\<open>stdlib/public/runtime/CrashHandlerLinux.cpp\<close>.
  C objects are modelled as the code has them: a \<^verbatim>\<open>char\<close> array is a list of
  8-bit words, \<^verbatim>\<open>unsigned\<close> is a 32-bit word, \<^verbatim>\<open>uintptr_t\<close> and
  \<^verbatim>\<open>uint64_t\<close> are 64-bit words, and a pointer into an array is the index of the
  element it points at.
\<close>

type_synonym byte = "8 word"

section \<open>Signal-safe formatting: format_address and format_unsigned\<close>

subsection \<open>The code\<close>

text \<open>
  The three statements that compute one hexadecimal digit:
  \<^verbatim>\<open>char digit = '0' + (addr & 0xf); if (digit > '9') digit += 'a' - '0' - 10;\<close>
\<close>

definition hex_digit :: "64 word \<Rightarrow> byte" where
  "hex_digit addr =
     (let digit = (ucast (48 + (addr AND 0xf)) :: byte)
      in if digit > 57 then digit + (97 - 48 - 10) else digit)"

text \<open>
  The digit loop of \<^verbatim>\<open>format_address\<close>. \<open>ptr\<close> is the offset of the C pointer
  from \<^verbatim>\<open>buffer\<close>, so \<^verbatim>\<open>ptr > buffer\<close> is \<open>0 < ptr\<close>. The loop returns the
  buffer and the final \<open>ptr\<close>.
\<close>

function format_address_loop :: "byte list \<Rightarrow> nat \<Rightarrow> 64 word \<Rightarrow> byte list \<times> nat" where
  "format_address_loop buffer ptr addr =
     (if ptr > 0 then
        (let digit = hex_digit addr;
             buffer' = buffer[ptr - 1 := digit];
             addr' = drop_bit 4 addr
         in if addr' = 0 then (buffer', ptr - 1)
            else format_address_loop buffer' (ptr - 1) addr')
      else (buffer, ptr))"
  by pat_completeness auto
termination
  by (relation "measure (\<lambda>(buffer, ptr, addr). ptr)") auto

declare format_address_loop.simps [simp del]

text \<open>
  The left-justifying copy \<^verbatim>\<open>while (*ptr) *pt2++ = *ptr++; *pt2++ = '\0';\<close>.
  Reading \<^verbatim>\<open>*ptr\<close> beyond the end of the array is undefined behaviour in C:
  the model returns \<open>None\<close> there. The write index \<open>pt2\<close> stays below \<open>ptr\<close>.
\<close>

function left_justify :: "byte list \<Rightarrow> nat \<Rightarrow> nat \<Rightarrow> byte list option" where
  "left_justify buffer ptr pt2 =
     (if ptr < length buffer then
        (if buffer ! ptr \<noteq> 0
         then left_justify (buffer[pt2 := buffer ! ptr]) (ptr + 1) (pt2 + 1)
         else Some (buffer[pt2 := 0]))
      else None)"
  by pat_completeness auto
termination
  by (relation "measure (\<lambda>(buffer, ptr, pt2). length buffer - ptr)") auto

declare left_justify.simps [simp del]

text \<open>\<^verbatim>\<open>void format_address(uintptr_t addr, char buffer[18])\<close>\<close>

definition format_address :: "64 word \<Rightarrow> byte list \<Rightarrow> byte list option" where
  "format_address addr buffer =
     (case format_address_loop (buffer[18 - 1 := 0]) (18 - 1) addr of
        (buffer', ptr) \<Rightarrow> if ptr > 0 then left_justify buffer' ptr 0 else Some buffer')"

text \<open>
  The digit loop of \<^verbatim>\<open>format_unsigned\<close>:
  \<^verbatim>\<open>char digit = '0' + (u % 10); *--ptr = digit; u /= 10; if (!u) break;\<close>
\<close>

function format_unsigned_loop :: "byte list \<Rightarrow> nat \<Rightarrow> 32 word \<Rightarrow> byte list \<times> nat" where
  "format_unsigned_loop buffer ptr u =
     (if ptr > 0 then
        (let digit = (ucast (48 + u mod 10) :: byte);
             buffer' = buffer[ptr - 1 := digit];
             u' = u div 10
         in if u' = 0 then (buffer', ptr - 1)
            else format_unsigned_loop buffer' (ptr - 1) u')
      else (buffer, ptr))"
  by pat_completeness auto
termination
  by (relation "measure (\<lambda>(buffer, ptr, u). ptr)") auto

declare format_unsigned_loop.simps [simp del]

text \<open>\<^verbatim>\<open>void format_unsigned(unsigned u, char buffer[22])\<close>\<close>

definition format_unsigned :: "32 word \<Rightarrow> byte list \<Rightarrow> byte list option" where
  "format_unsigned u buffer =
     (case format_unsigned_loop (buffer[22 - 1 := 0]) (22 - 1) u of
        (buffer', ptr) \<Rightarrow> if ptr > 0 then left_justify buffer' ptr 0 else Some buffer')"

subsection \<open>The standard representations\<close>

text \<open>
  What \<^verbatim>\<open>printf("%u")\<close> and \<^verbatim>\<open>printf("%lx")\<close> print: the digits of the value in
  base 10 or 16, most significant first, a single \<open>0\<close> for zero.
\<close>

definition digit_char :: "nat \<Rightarrow> char" where
  "digit_char d = ''0123456789abcdef'' ! d"

function hex_repr :: "nat \<Rightarrow> string" where
  "hex_repr n = (if n < 16 then [digit_char n] else hex_repr (n div 16) @ [digit_char (n mod 16)])"
  by pat_completeness auto
termination
  by (relation "measure id") auto

declare hex_repr.simps [simp del]

function decimal_repr :: "nat \<Rightarrow> string" where
  "decimal_repr n =
     (if n < 10 then [digit_char n] else decimal_repr (n div 10) @ [digit_char (n mod 10)])"
  by pat_completeness auto
termination
  by (relation "measure id") auto

declare decimal_repr.simps [simp del]

text \<open>The value a digit string denotes in a base, to say that the representations are right.\<close>

definition digit_value :: "char \<Rightarrow> nat" where
  "digit_value c = (if of_char c < (58::nat) then of_char c - 48 else of_char c - 87)"

fun string_value :: "nat \<Rightarrow> nat \<Rightarrow> string \<Rightarrow> nat" where
  "string_value base acc [] = acc"
| "string_value base acc (c # cs) = string_value base (acc * base + digit_value c) cs"

text \<open>A string as the bytes of a C character array, and the C string a buffer holds.\<close>

definition ascii :: "string \<Rightarrow> byte list" where
  "ascii s = map (\<lambda>c. of_nat (of_char c)) s"

definition c_string :: "byte list \<Rightarrow> string option" where
  "c_string buffer =
     (if 0 \<in> set buffer
      then Some (map (\<lambda>b. char_of (unat b)) (takeWhile (\<lambda>b. b \<noteq> 0) buffer))
      else None)"

subsection \<open>Correctness of the formatting routines\<close>

lemma and_0xf_take_bit: "(addr :: 64 word) AND 0xf = take_bit 4 addr"
proof -
  have "(0xf :: 64 word) = mask 4" by (simp add: mask_eq_exp_minus_1)
  then show ?thesis by (simp only: take_bit_eq_mask)
qed

lemma unat_and_0xf: "unat ((addr :: 64 word) AND 0xf) = unat addr mod 16"
  by (simp only: and_0xf_take_bit unsigned_take_bit_eq take_bit_eq_mod) (simp add: unat_mod)

lemma hex_digit_eq: "hex_digit addr = of_nat (of_char (digit_char (unat addr mod 16)))"
proof -
  define k where "k = unat addr mod 16"
  have k: "k < 16" by (simp add: k_def)
  have "addr AND 0xf = of_nat k"
    unfolding k_def unat_and_0xf [symmetric] by simp
  then have h: "hex_digit addr = (let digit = (ucast (48 + (of_nat k :: 64 word)) :: byte)
      in if digit > 57 then digit + (97 - 48 - 10) else digit)"
    by (simp add: hex_digit_def)
  from k have "k \<in> {0,1,2,3,4,5,6,7,8,9,10,11,12,13,14,15}" by (auto; arith)
  then show ?thesis
    unfolding h k_def [symmetric]
    by (auto simp: digit_char_def)
qed

lemma decimal_digit_eq:
  "(ucast (48 + (u :: 32 word) mod 10) :: byte) = of_nat (of_char (digit_char (unat u mod 10)))"
proof -
  define k where "k = unat u mod 10"
  have k: "k < 10" by (simp add: k_def)
  have "unat (u mod 10) = k" by (simp add: k_def unat_mod)
  then have "of_nat (unat (u mod 10)) = (of_nat k :: 32 word)" by (rule arg_cong)
  then have "u mod 10 = of_nat k" by simp
  then have h: "(ucast (48 + u mod 10) :: byte) = ucast (48 + (of_nat k :: 32 word))"
    by simp
  from k have "k \<in> {0,1,2,3,4,5,6,7,8,9}" by (auto; arith)
  then show ?thesis
    unfolding h k_def [symmetric]
    by (auto simp: digit_char_def)
qed

lemma hex_repr_length_pos: "0 < length (hex_repr n)"
  by (subst hex_repr.simps) simp

lemma decimal_repr_length_pos: "0 < length (decimal_repr n)"
  by (subst decimal_repr.simps) simp

lemma hex_repr_length_le: "n < 16 ^ k \<Longrightarrow> 0 < k \<Longrightarrow> length (hex_repr n) \<le> k"
proof (induction n arbitrary: k rule: hex_repr.induct)
  case (1 n)
  show ?case
  proof (cases "n < 16")
    case True
    with "1.prems" show ?thesis by (subst hex_repr.simps) simp
  next
    case False
    with "1.prems" obtain j where k: "k = Suc j" by (cases k) auto
    from False "1.prems" k have j: "0 < j" by (cases j) auto
    from "1.prems" k have "n div 16 < 16 ^ j"
      by (simp add: less_mult_imp_div_less mult.commute)
    with "1.IH" [OF False _ j] have "length (hex_repr (n div 16)) \<le> j" by simp
    with False k show ?thesis by (subst hex_repr.simps) simp
  qed
qed

lemma decimal_repr_length_le: "n < 10 ^ k \<Longrightarrow> 0 < k \<Longrightarrow> length (decimal_repr n) \<le> k"
proof (induction n arbitrary: k rule: decimal_repr.induct)
  case (1 n)
  show ?case
  proof (cases "n < 10")
    case True
    with "1.prems" show ?thesis by (subst decimal_repr.simps) simp
  next
    case False
    with "1.prems" obtain j where k: "k = Suc j" by (cases k) auto
    from False "1.prems" k have j: "0 < j" by (cases j) auto
    from "1.prems" k have "n div 10 < 10 ^ j"
      by (simp add: less_mult_imp_div_less mult.commute)
    with "1.IH" [OF False _ j] have "length (decimal_repr (n div 10)) \<le> j" by simp
    with False k show ?thesis by (subst decimal_repr.simps) simp
  qed
qed

lemma digit_char_nonzero: "d < 16 \<Longrightarrow> (of_nat (of_char (digit_char d)) :: byte) \<noteq> 0"
proof -
  assume "d < 16"
  then have "d \<in> {0,1,2,3,4,5,6,7,8,9,10,11,12,13,14,15}" by (auto; arith)
  then show ?thesis by (auto simp: digit_char_def)
qed

lemma hex_repr_nonzero: "0 \<notin> set (ascii (hex_repr n))"
proof (induction n rule: hex_repr.induct)
  case (1 n)
  show ?case
  proof (cases "n < 16")
    case True
    then show ?thesis
      using digit_char_nonzero [of n] by (subst hex_repr.simps) (simp add: ascii_def)
  next
    case False
    then show ?thesis
      using "1.IH" digit_char_nonzero [of "n mod 16"]
      by (subst hex_repr.simps) (simp add: ascii_def)
  qed
qed

lemma decimal_repr_nonzero: "0 \<notin> set (ascii (decimal_repr n))"
proof (induction n rule: decimal_repr.induct)
  case (1 n)
  show ?case
  proof (cases "n < 10")
    case True
    then show ?thesis
      using digit_char_nonzero [of n] by (subst decimal_repr.simps) (simp add: ascii_def)
  next
    case False
    have "n mod 10 < 16" by (rule less_trans [of _ 10]) simp_all
    then show ?thesis
      using False "1.IH" digit_char_nonzero [of "n mod 10"]
      by (subst decimal_repr.simps) (simp add: ascii_def)
  qed
qed

lemma drop_bit_4_unat: "unat (drop_bit 4 (addr :: 64 word)) = unat addr div 16"
  by (simp add: unat_drop_bit_eq drop_bit_eq_div unat_div)

lemma format_address_loop_correct:
  "0 < ptr \<Longrightarrow> ptr \<le> length buffer \<Longrightarrow> unat addr < 16 ^ ptr \<Longrightarrow>
   format_address_loop buffer ptr addr =
     (take (ptr - length (hex_repr (unat addr))) buffer @ ascii (hex_repr (unat addr)) @ drop ptr buffer,
      ptr - length (hex_repr (unat addr)))"
proof (induction buffer ptr addr rule: format_address_loop.induct)
  case (1 buffer ptr addr)
  define digit where "digit = hex_digit addr"
  define buffer' where "buffer' = buffer[ptr - 1 := digit]"
  define addr' where "addr' = drop_bit 4 addr"
  have ua': "unat addr' = unat addr div 16"
    by (simp add: addr'_def drop_bit_4_unat)
  have b': "buffer' = take (ptr - 1) buffer @ digit # drop ptr buffer"
    using "1.prems" by (simp add: buffer'_def upd_conv_take_nth_drop)
  have dg: "[digit] = ascii [digit_char (unat addr mod 16)]"
    by (simp add: digit_def hex_digit_eq ascii_def)
  show ?case
  proof (cases "addr' = 0")
    case True
    then have "unat addr div 16 = 0" using ua' by simp
    then have small: "unat addr < 16" by (simp add: div_eq_0_iff)
    then have th: "hex_repr (unat addr) = [digit_char (unat addr mod 16)]"
      by (subst hex_repr.simps) simp
    have "format_address_loop buffer ptr addr = (buffer', ptr - 1)"
      using "1.prems" True
      by (subst format_address_loop.simps) (simp add: Let_def digit_def buffer'_def addr'_def)
    then show ?thesis using b' dg th by simp
  next
    case False
    then have nz: "unat addr div 16 \<noteq> 0" using ua' by (metis unsigned_eq_0_iff)
    then have big: "\<not> unat addr < 16" by (simp add: div_eq_0_iff)
    then have th: "hex_repr (unat addr) = hex_repr (unat addr') @ [digit_char (unat addr mod 16)]"
      using ua' by (subst hex_repr.simps) simp
    from "1.prems" obtain j where j: "ptr = Suc j" by (cases ptr) auto
    have lt: "unat addr' < 16 ^ j"
      using "1.prems" j ua' by (simp add: less_mult_imp_div_less mult.commute)
    have jpos: "0 < j" using lt nz ua' by (cases j) auto
    have len': "length (hex_repr (unat addr')) \<le> j"
      by (rule hex_repr_length_le [OF lt jpos])
    have lb: "j \<le> length buffer'" using "1.prems" j by (simp add: buffer'_def)
    have step: "format_address_loop buffer ptr addr = format_address_loop buffer' (ptr - 1) addr'"
      using "1.prems" False
      by (subst format_address_loop.simps) (simp add: Let_def digit_def buffer'_def addr'_def)
    have IH: "format_address_loop buffer' j addr' =
      (take (j - length (hex_repr (unat addr'))) buffer' @ ascii (hex_repr (unat addr')) @ drop j buffer',
       j - length (hex_repr (unat addr')))"
      using "1.IH" [OF _ digit_def buffer'_def addr'_def False] "1.prems" j jpos lb lt
      by simp
    have t: "take (j - length (hex_repr (unat addr'))) buffer' = take (j - length (hex_repr (unat addr'))) buffer"
      using b' j "1.prems" by (simp add: min_def)
    have d: "drop j buffer' = digit # drop ptr buffer"
      using b' j "1.prems" by simp
    show ?thesis
      using step IH t d th dg j len' hex_repr_length_pos [of "unat addr'"]
      by (simp add: ascii_def)
  qed
qed

lemma format_unsigned_loop_correct:
  "0 < ptr \<Longrightarrow> ptr \<le> length buffer \<Longrightarrow> unat u < 10 ^ ptr \<Longrightarrow>
   format_unsigned_loop buffer ptr u =
     (take (ptr - length (decimal_repr (unat u))) buffer @ ascii (decimal_repr (unat u)) @ drop ptr buffer,
      ptr - length (decimal_repr (unat u)))"
proof (induction buffer ptr u rule: format_unsigned_loop.induct)
  case (1 buffer ptr u)
  define digit where "digit = (ucast (48 + u mod 10) :: byte)"
  define buffer' where "buffer' = buffer[ptr - 1 := digit]"
  define u' where "u' = u div 10"
  have ua': "unat u' = unat u div 10"
    by (simp add: u'_def unat_div)
  have b': "buffer' = take (ptr - 1) buffer @ digit # drop ptr buffer"
    using "1.prems" by (simp add: buffer'_def upd_conv_take_nth_drop)
  have dg: "[digit] = ascii [digit_char (unat u mod 10)]"
    by (simp add: digit_def decimal_digit_eq ascii_def)
  show ?case
  proof (cases "u' = 0")
    case True
    then have "unat u div 10 = 0" using ua' by simp
    then have small: "unat u < 10" by (simp add: div_eq_0_iff)
    then have th: "decimal_repr (unat u) = [digit_char (unat u mod 10)]"
      by (subst decimal_repr.simps) simp
    have "format_unsigned_loop buffer ptr u = (buffer', ptr - 1)"
      using "1.prems" True
      by (subst format_unsigned_loop.simps) (simp add: Let_def digit_def buffer'_def u'_def)
    then show ?thesis using b' dg th by simp
  next
    case False
    then have nz: "unat u div 10 \<noteq> 0" using ua' by (metis unsigned_eq_0_iff)
    then have big: "\<not> unat u < 10" by (simp add: div_eq_0_iff)
    then have th: "decimal_repr (unat u) = decimal_repr (unat u') @ [digit_char (unat u mod 10)]"
      using ua' by (subst decimal_repr.simps) simp
    from "1.prems" obtain j where j: "ptr = Suc j" by (cases ptr) auto
    have lt: "unat u' < 10 ^ j"
      using "1.prems" j ua' by (simp add: less_mult_imp_div_less mult.commute)
    have jpos: "0 < j" using lt nz ua' by (cases j) auto
    have len': "length (decimal_repr (unat u')) \<le> j"
      by (rule decimal_repr_length_le [OF lt jpos])
    have lb: "j \<le> length buffer'" using "1.prems" j by (simp add: buffer'_def)
    have step: "format_unsigned_loop buffer ptr u = format_unsigned_loop buffer' (ptr - 1) u'"
      using "1.prems" False
      by (subst format_unsigned_loop.simps) (simp add: Let_def digit_def buffer'_def u'_def)
    have IH: "format_unsigned_loop buffer' j u' =
      (take (j - length (decimal_repr (unat u'))) buffer' @ ascii (decimal_repr (unat u')) @ drop j buffer',
       j - length (decimal_repr (unat u')))"
      using "1.IH" [OF _ digit_def buffer'_def u'_def False] "1.prems" j jpos lb lt
      by simp
    have t: "take (j - length (decimal_repr (unat u'))) buffer' = take (j - length (decimal_repr (unat u'))) buffer"
      using b' j "1.prems" by (simp add: min_def)
    have d: "drop j buffer' = digit # drop ptr buffer"
      using b' j "1.prems" by simp
    show ?thesis
      using step IH t d th dg j len' decimal_repr_length_pos [of "unat u'"]
      by (simp add: ascii_def)
  qed
qed

lemma left_justify_nth:
  "pt2 < ptr \<Longrightarrow> ptr + length s < length buffer \<Longrightarrow>
   (\<forall>i<length s. buffer ! (ptr + i) = s ! i) \<Longrightarrow> buffer ! (ptr + length s) = 0 \<Longrightarrow> 0 \<notin> set s \<Longrightarrow>
   \<exists>r. left_justify buffer ptr pt2 = Some r \<and> length r = length buffer \<and>
       (\<forall>i<pt2. r ! i = buffer ! i) \<and> (\<forall>i<length s. r ! (pt2 + i) = s ! i) \<and>
       r ! (pt2 + length s) = 0"
proof (induction s arbitrary: buffer ptr pt2)
  case Nil
  then show ?case
    by (subst left_justify.simps) simp
next
  case (Cons x xs)
  define buffer' where "buffer' = buffer[pt2 := buffer ! ptr]"
  have "0 < length (x # xs) \<longrightarrow> buffer ! (ptr + 0) = (x # xs) ! 0"
    using Cons.prems(3) by (rule spec)
  then have x: "buffer ! ptr = x" by simp
  have lb: "length buffer' = length buffer" by (simp add: buffer'_def)
  have p1: "pt2 + 1 < ptr + 1" using Cons.prems(1) by simp
  have p2: "ptr + 1 + length xs < length buffer'" using Cons.prems(2) lb by simp
  have p3: "\<forall>i<length xs. buffer' ! (ptr + 1 + i) = xs ! i"
  proof (intro allI impI)
    fix i assume i: "i < length xs"
    have "buffer' ! (ptr + 1 + i) = buffer ! (ptr + 1 + i)"
      using Cons.prems(1) by (simp add: buffer'_def)
    also have "\<dots> = (x # xs) ! (Suc i)"
    proof -
      have "Suc i < length (x # xs) \<longrightarrow> buffer ! (ptr + Suc i) = (x # xs) ! Suc i"
        using Cons.prems(3) by (rule spec)
      with i show ?thesis by simp
    qed
    finally show "buffer' ! (ptr + 1 + i) = xs ! i" by simp
  qed
  have p4: "buffer' ! (ptr + 1 + length xs) = 0"
    using Cons.prems(1,4) by (simp add: buffer'_def)
  have p5: "0 \<notin> set xs" using Cons.prems(5) by simp
  from Cons.IH [OF p1 p2 p3 p4 p5]
  obtain r where r: "left_justify buffer' (ptr + 1) (pt2 + 1) = Some r" "length r = length buffer'"
       "\<forall>i<pt2 + 1. r ! i = buffer' ! i" "\<forall>i<length xs. r ! (pt2 + 1 + i) = xs ! i"
       "r ! (pt2 + 1 + length xs) = 0"
    by blast
  have xnz: "x \<noteq> 0" using Cons.prems(5) by auto
  have pin: "ptr < length buffer" using Cons.prems(2) by simp
  have step: "left_justify buffer ptr pt2 = Some r"
    using pin x xnz r(1) by (subst left_justify.simps) (simp add: buffer'_def)
  have pl: "pt2 < length buffer" using Cons.prems(1) pin by simp
  have a: "\<forall>i<pt2. r ! i = buffer ! i"
    using r(3) by (simp add: buffer'_def)
  have b: "r ! pt2 = x" using r(3) pl x by (simp add: buffer'_def)
  have c: "\<forall>i<length (x # xs). r ! (pt2 + i) = (x # xs) ! i"
  proof (intro allI impI)
    fix i assume "i < length (x # xs)"
    then show "r ! (pt2 + i) = (x # xs) ! i"
    proof (cases i)
      case 0
      then show ?thesis using b by simp
    next
      case (Suc k)
      assume "i < length (x # xs)"
      with Suc have "k < length xs" by simp
      with r(4) have "r ! (pt2 + 1 + k) = xs ! k" by blast
      with Suc show ?thesis by simp
    qed
  qed
  have d: "r ! (pt2 + length (x # xs)) = 0" using r(5) by simp
  show ?case
  proof (intro exI conjI)
    show "left_justify buffer ptr pt2 = Some r" by (rule step)
    show "length r = length buffer" using r(2) lb by simp
    show "\<forall>i<pt2. r ! i = buffer ! i" by (rule a)
    show "\<forall>i<length (x # xs). r ! (pt2 + i) = (x # xs) ! i" by (rule c)
    show "r ! (pt2 + length (x # xs)) = 0" by (rule d)
  qed
qed

lemma char_of_ascii: "map (\<lambda>b. char_of (unat b)) (ascii s) = s"
proof -
  have "char_of (unat (of_nat (of_char c) :: byte)) = c" for c :: char
  proof -
    have "of_char c < (256 :: nat)" by simp
    then have "unat (of_nat (of_char c) :: byte) = of_char c"
      by (simp add: unsigned_of_nat take_bit_nat_eq_self)
    then show ?thesis by simp
  qed
  then show ?thesis by (simp add: ascii_def comp_def)
qed

lemma c_string_prefix:
  assumes "length s < length r" and "\<forall>i<length s. r ! i = ascii s ! i"
    and "r ! length s = 0" and "0 \<notin> set (ascii s)"
  shows "c_string r = Some s \<and> take (length s + 1) r = ascii s @ [0]"
proof -
  have ls: "length (ascii s) = length s" by (simp add: ascii_def)
  have tk: "take (length s) r = ascii s"
    using assms(1,2) ls by (intro nth_equalityI) simp_all
  have r: "r = ascii s @ 0 # drop (Suc (length s)) r"
    using assms(1,3) tk by (metis id_take_nth_drop)
  have tw: "takeWhile (\<lambda>b. b \<noteq> 0) r = ascii s"
    using assms(4) by (subst r) (auto simp: takeWhile_tail)
  have "0 \<in> set r" by (subst r) simp
  then have "c_string r = Some s"
    using tw by (simp add: c_string_def char_of_ascii)
  moreover have "take (length s + 1) r = ascii s @ [0]"
    using ls by (subst r) simp
  ultimately show ?thesis by simp
qed

lemma format_address_c_string:
  assumes len: "length buffer = 18"
  shows "\<exists>r. format_address addr buffer = Some r \<and> length r = 18 \<and>
           c_string r = Some (hex_repr (unat addr)) \<and>
           take (length (hex_repr (unat addr)) + 1) r = ascii (hex_repr (unat addr)) @ [0]"
proof -
  define h where "h = hex_repr (unat addr)"
  define b1 where "b1 = buffer[18 - 1 := 0]"
  define p where "p = 17 - length h"
  have "unat addr < 2 ^ 64" using unsigned_less [of addr] by simp
  then have lt16: "unat addr < 16 ^ 16" by simp
  then have lt17: "unat addr < 16 ^ 17" by simp
  have k: "length h \<le> 16" unfolding h_def by (rule hex_repr_length_le [OF lt16]) simp
  have kpos: "0 < length h" unfolding h_def by (rule hex_repr_length_pos)
  have lb1: "length b1 = 18" by (simp add: b1_def len)
  have d17: "drop 17 b1 = [0]"
  proof -
    have "b1 = take 17 buffer @ 0 # drop 18 buffer"
      using len by (simp add: b1_def upd_conv_take_nth_drop)
    then show ?thesis using len by simp
  qed
  define b2 where "b2 = take p b1 @ ascii h @ [0]"
  have loop: "format_address_loop b1 17 addr = (b2, p)"
    using format_address_loop_correct [of 17 b1 addr] lt17 lb1 d17
    by (simp add: b2_def p_def h_def)
  have ppos: "0 < p" using k by (simp add: p_def)
  have la: "length (ascii h) = length h" by (simp add: ascii_def)
  have lb2: "length b2 = 18" using k lb1 la by (simp add: b2_def p_def)
  have c2: "p + length (ascii h) < length b2" using k la lb2 by (simp add: p_def)
  have ltp: "length (take p b1) = p" using lb1 by (simp add: p_def)
  have c3: "\<forall>i<length (ascii h). b2 ! (p + i) = ascii h ! i"
    using ltp by (simp add: b2_def nth_append)
  have c4: "b2 ! (p + length (ascii h)) = 0"
    using ltp by (simp add: b2_def nth_append)
  have c5: "0 \<notin> set (ascii h)" unfolding h_def by (rule hex_repr_nonzero)
  from left_justify_nth [OF ppos c2 c3 c4 c5]
  obtain r where r: "left_justify b2 p 0 = Some r" "length r = length b2"
    "\<forall>i<length (ascii h). r ! (0 + i) = ascii h ! i" "r ! (0 + length (ascii h)) = 0"
    by blast
  have fa: "format_address addr buffer = Some r"
    using loop ppos r(1) by (simp add: format_address_def b1_def)
  have "c_string r = Some h \<and> take (length h + 1) r = ascii h @ [0]"
    using r(2-4) lb2 k la c5 by (intro c_string_prefix) simp_all
  then show ?thesis using fa r(2) lb2 by (simp add: h_def)
qed

lemma format_unsigned_c_string:
  assumes len: "length buffer = 22"
  shows "\<exists>r. format_unsigned u buffer = Some r \<and> length r = 22 \<and>
           c_string r = Some (decimal_repr (unat u)) \<and>
           take (length (decimal_repr (unat u)) + 1) r = ascii (decimal_repr (unat u)) @ [0]"
proof -
  define h where "h = decimal_repr (unat u)"
  define b1 where "b1 = buffer[22 - 1 := 0]"
  define p where "p = 21 - length h"
  have "unat u < 2 ^ 32" using unsigned_less [of u] by simp
  then have lt10: "unat u < 10 ^ 10" by simp
  then have lt21: "unat u < 10 ^ 21" by simp
  have k: "length h \<le> 10" unfolding h_def by (rule decimal_repr_length_le [OF lt10]) simp
  have kpos: "0 < length h" unfolding h_def by (rule decimal_repr_length_pos)
  have lb1: "length b1 = 22" by (simp add: b1_def len)
  have d21: "drop 21 b1 = [0]"
  proof -
    have "b1 = take 21 buffer @ 0 # drop 22 buffer"
      using len by (simp add: b1_def upd_conv_take_nth_drop)
    then show ?thesis using len by simp
  qed
  define b2 where "b2 = take p b1 @ ascii h @ [0]"
  have loop: "format_unsigned_loop b1 21 u = (b2, p)"
    using format_unsigned_loop_correct [of 21 b1 u] lt21 lb1 d21
    by (simp add: b2_def p_def h_def)
  have ppos: "0 < p" using k by (simp add: p_def)
  have la: "length (ascii h) = length h" by (simp add: ascii_def)
  have lb2: "length b2 = 22" using k lb1 la by (simp add: b2_def p_def)
  have c2: "p + length (ascii h) < length b2" using k la lb2 by (simp add: p_def)
  have ltp: "length (take p b1) = p" using lb1 by (simp add: p_def)
  have c3: "\<forall>i<length (ascii h). b2 ! (p + i) = ascii h ! i"
    using ltp by (simp add: b2_def nth_append)
  have c4: "b2 ! (p + length (ascii h)) = 0"
    using ltp by (simp add: b2_def nth_append)
  have c5: "0 \<notin> set (ascii h)" unfolding h_def by (rule decimal_repr_nonzero)
  from left_justify_nth [OF ppos c2 c3 c4 c5]
  obtain r where r: "left_justify b2 p 0 = Some r" "length r = length b2"
    "\<forall>i<length (ascii h). r ! (0 + i) = ascii h ! i" "r ! (0 + length (ascii h)) = 0"
    by blast
  have fa: "format_unsigned u buffer = Some r"
    using loop ppos r(1) by (simp add: format_unsigned_def b1_def)
  have "c_string r = Some h \<and> take (length h + 1) r = ascii h @ [0]"
    using r(2-4) lb2 k la c5 by (intro c_string_prefix) simp_all
  then show ?thesis using fa r(2) lb2 by (simp add: h_def)
qed

text \<open>The representations denote the value and have no leading zero.\<close>

lemma digit_value_digit_char: "d < 16 \<Longrightarrow> digit_value (digit_char d) = d"
proof -
  assume "d < 16"
  then have "d \<in> {0,1,2,3,4,5,6,7,8,9,10,11,12,13,14,15}" by (auto; arith)
  then show ?thesis by (auto simp: digit_char_def digit_value_def)
qed

lemma string_value_append:
  "string_value base acc (xs @ ys) = string_value base (string_value base acc xs) ys"
  by (induction xs arbitrary: acc) simp_all

lemma hex_repr_value: "string_value 16 0 (hex_repr n) = n"
proof (induction n rule: hex_repr.induct)
  case (1 n)
  show ?case
  proof (cases "n < 16")
    case True
    then show ?thesis by (subst hex_repr.simps) (simp add: digit_value_digit_char)
  next
    case False
    then show ?thesis
      using "1.IH" by (subst hex_repr.simps) (simp add: string_value_append digit_value_digit_char)
  qed
qed

lemma decimal_repr_value: "string_value 10 0 (decimal_repr n) = n"
proof (induction n rule: decimal_repr.induct)
  case (1 n)
  show ?case
  proof (cases "n < 10")
    case True
    then show ?thesis by (subst decimal_repr.simps) (simp add: digit_value_digit_char)
  next
    case False
    have "n mod 10 < 16" by (rule less_trans [of _ 10]) simp_all
    then show ?thesis
      using False "1.IH"
      by (subst decimal_repr.simps) (simp add: string_value_append digit_value_digit_char)
  qed
qed

lemma hex_repr_no_leading_zero: "0 < n \<Longrightarrow> hd (hex_repr n) \<noteq> CHR ''0''"
proof (induction n rule: hex_repr.induct)
  case (1 n)
  show ?case
  proof (cases "n < 16")
    case True
    with "1.prems" have "n \<in> {1,2,3,4,5,6,7,8,9,10,11,12,13,14,15}" by (auto; arith)
    then show ?thesis by (subst hex_repr.simps) (auto simp: digit_char_def)
  next
    case False
    then have "0 < n div 16" by (simp add: div_greater_zero_iff)
    with "1.IH" False have "hd (hex_repr (n div 16)) \<noteq> CHR ''0''" by simp
    then show ?thesis
      using False hex_repr_length_pos [of "n div 16"]
      by (subst hex_repr.simps) (simp add: hd_append)
  qed
qed

lemma decimal_repr_no_leading_zero: "0 < n \<Longrightarrow> hd (decimal_repr n) \<noteq> CHR ''0''"
proof (induction n rule: decimal_repr.induct)
  case (1 n)
  show ?case
  proof (cases "n < 10")
    case True
    with "1.prems" have "n \<in> {1,2,3,4,5,6,7,8,9}" by (auto; arith)
    then show ?thesis by (subst decimal_repr.simps) (auto simp: digit_char_def)
  next
    case False
    then have "0 < n div 10" by (simp add: div_greater_zero_iff)
    with "1.IH" False have "hd (decimal_repr (n div 10)) \<noteq> CHR ''0''" by simp
    then show ?thesis
      using False decimal_repr_length_pos [of "n div 10"]
      by (subst decimal_repr.simps) (simp add: hd_append)
  qed
qed

text \<open>
  Claim C7. For every 32-bit value \<open>u\<close> and every 64-bit value \<open>addr\<close>,
  \<^verbatim>\<open>format_unsigned\<close> leaves in its 22-byte buffer the C string that is exactly the
  decimal representation of \<open>u\<close>, and \<^verbatim>\<open>format_address\<close> leaves in its 18-byte
  buffer the C string that is exactly the hexadecimal representation of \<open>addr\<close>: the
  digits start at index 0 of the buffer and are followed by a NUL, whatever the buffer
  held before. The representations have no leading zero and denote the value
  (\<open>decimal_repr_value\<close>, \<open>decimal_repr_no_leading_zero\<close>, \<open>hex_repr_value\<close>,
  \<open>hex_repr_no_leading_zero\<close>), so nothing is padded and nothing is cut off.
\<close>

theorem format_exact_representation:
  "length buffer22 = 22 \<Longrightarrow> length buffer18 = 18 \<Longrightarrow>
   (\<exists>r. format_unsigned u buffer22 = Some r \<and> length r = 22 \<and>
        c_string r = Some (decimal_repr (unat u)) \<and>
        take (length (decimal_repr (unat u)) + 1) r = ascii (decimal_repr (unat u)) @ [0]) \<and>
   (\<exists>r. format_address addr buffer18 = Some r \<and> length r = 18 \<and>
        c_string r = Some (hex_repr (unat addr)) \<and>
        take (length (hex_repr (unat addr)) + 1) r = ascii (hex_repr (unat addr)) @ [0])"
  using format_unsigned_c_string [of buffer22 u] format_address_c_string [of buffer18 addr]
  by simp

text \<open>The maximum values of both types, on buffers that hold no NUL beforehand.\<close>

lemma decimal_repr_max: "decimal_repr 4294967295 = ''4294967295''"
  by (simp add: decimal_repr.simps digit_char_def)

lemma hex_repr_max: "hex_repr 18446744073709551615 = ''ffffffffffffffff''"
  by (simp add: hex_repr.simps digit_char_def)

theorem format_exact_representation_witness:
  "length (replicate 22 (1 :: byte)) = 22 \<and> length (replicate 18 (1 :: byte)) = 18 \<and>
   (\<exists>r. format_unsigned 4294967295 (replicate 22 1) = Some r \<and>
        length r = 22 \<and> c_string r = Some ''4294967295'' \<and>
        take (length ''4294967295'' + 1) r = ascii ''4294967295'' @ [0]) \<and>
   (\<exists>r. format_address 18446744073709551615 (replicate 18 1) = Some r \<and>
        length r = 18 \<and> c_string r = Some ''ffffffffffffffff'' \<and>
        take (length ''ffffffffffffffff'' + 1) r = ascii ''ffffffffffffffff'' @ [0])"
  using format_exact_representation [of "replicate 22 1" "replicate 18 1" 4294967295 18446744073709551615]
  by (simp add: decimal_repr_max hex_repr_max)

section \<open>Starting the backtracer: run_backtracer\<close>

subsection \<open>The settings\<close>

text \<open>
  Modelled from the spec: the settings structure \<^verbatim>\<open>_swift_backtraceSettings\<close> and its
  enumerations are declared in \<^verbatim>\<open>swift/Runtime/Backtrace.h\<close>, which is not among the
  sources. Each enumeration below has the enumerators that \<^verbatim>\<open>run_backtracer\<close> names
  (\<^verbatim>\<open>UnwindAlgorithm::Fast\<close> is \<open>UnwindAlgorithm_Fast\<close>, and so on) and one more
  constructor, \<open>_other\<close>, for every other value the type can hold: an enumerator
  that the function does not name, or a value outside the declared ones.
  The fields have the types at which the function uses them: \<open>timeout\<close> and
  \<open>top\<close> are passed to \<^verbatim>\<open>format_unsigned(unsigned, ...)\<close>; \<open>limit\<close> is compared with
  0 as a signed integer and then passed to the same function. The fields given to the
  overloaded \<^verbatim>\<open>trueOrFalse\<close> are a \<^verbatim>\<open>bool\<close> or an \<^verbatim>\<open>OnOffTty\<close>; the value
  carries which, as overload resolution does.
\<close>

datatype UnwindAlgorithm = UnwindAlgorithm_Fast | UnwindAlgorithm_other nat

datatype OnOffTty = OnOffTty_On | OnOffTty_other nat

datatype ThreadsToShow =
  ThreadsToShow_Preset | ThreadsToShow_All | ThreadsToShow_Crashed | ThreadsToShow_other nat

datatype RegistersToShow =
  RegistersToShow_Preset | RegistersToShow_None | RegistersToShow_All | RegistersToShow_Crashed
  | RegistersToShow_other nat

datatype ImagesToShow =
  ImagesToShow_Preset | ImagesToShow_None | ImagesToShow_All | ImagesToShow_Mentioned
  | ImagesToShow_other nat

datatype Preset = Preset_Friendly | Preset_Medium | Preset_other nat

datatype SanitizePaths =
  SanitizePaths_Preset | SanitizePaths_Off | SanitizePaths_On | SanitizePaths_other nat

datatype OutputTo = OutputTo_Stdout | OutputTo_Auto | OutputTo_Stderr | OutputTo_other nat

datatype flag = Bool bool | Tty OnOffTty

record BacktraceSettings =
  algorithm :: UnwindAlgorithm
  demangle :: flag
  interactive :: flag
  color :: flag
  timeout :: "32 word"
  threads :: ThreadsToShow
  registers :: RegistersToShow
  images :: ImagesToShow
  limit :: "32 word"
  top :: "32 word"
  sanitize :: SanitizePaths
  preset :: Preset
  cache :: flag
  outputTo :: OutputTo

subsection \<open>The argument vector and its buffers\<close>

text \<open>
  An entry of \<^verbatim>\<open>backtracer_argv\<close> points at a string literal or at one of the four
  global buffers. The terminating \<^verbatim>\<open>NULL\<close> of the C array is the end of the list.
\<close>

datatype arg = Literal string | Addr_buf | Timeout_buf | Limit_buf | Top_buf

record launcher =
  backtracer_argv :: "arg list"
  addr_buf :: "byte list"
  timeout_buf :: "byte list"
  limit_buf :: "byte list"
  top_buf :: "byte list"

definition backtracer_argv_init :: "arg list" where
  "backtracer_argv_init =
     [Literal ''swift-backtrace'',
      Literal ''--unwind'', Literal ''precise'',
      Literal ''--demangle'', Literal ''true'',
      Literal ''--interactive'', Literal ''true'',
      Literal ''--color'', Literal ''true'',
      Literal ''--timeout'', Timeout_buf,
      Literal ''--preset'', Literal ''friendly'',
      Literal ''--crashinfo'', Addr_buf,
      Literal ''--threads'', Literal ''preset'',
      Literal ''--registers'', Literal ''preset'',
      Literal ''--images'', Literal ''preset'',
      Literal ''--limit'', Limit_buf,
      Literal ''--top'', Top_buf,
      Literal ''--sanitize'', Literal ''preset'',
      Literal ''--cache'', Literal ''true'',
      Literal ''--output-to'', Literal ''stdout'']"

text \<open>The assignment \<^verbatim>\<open>backtracer_argv[i] = "..."\<close>.\<close>

definition set_argv :: "nat \<Rightarrow> string \<Rightarrow> launcher \<Rightarrow> launcher" where
  "set_argv i s st = st\<lparr>backtracer_argv := (backtracer_argv st)[i := Literal s]\<rparr>"

text \<open>
  \<^verbatim>\<open>strcpy(dest, src)\<close> copies the characters and the terminating NUL; writing beyond
  the destination is undefined behaviour, \<open>None\<close> here.
\<close>

definition strcpy :: "byte list \<Rightarrow> string \<Rightarrow> byte list option" where
  "strcpy dest src =
     (if length src + 1 \<le> length dest
      then Some (ascii src @ [0] @ drop (length src + 1) dest)
      else None)"

text \<open>The two overloads of \<^verbatim>\<open>trueOrFalse\<close>, and the call resolved by the argument's type.\<close>

definition trueOrFalse_bool :: "bool \<Rightarrow> string" where
  "trueOrFalse_bool b = (if b then ''true'' else ''false'')"

definition trueOrFalse_OnOffTty :: "OnOffTty \<Rightarrow> string" where
  "trueOrFalse_OnOffTty oot = trueOrFalse_bool (oot = OnOffTty_On)"

fun trueOrFalse :: "flag \<Rightarrow> string" where
  "trueOrFalse (Bool b) = trueOrFalse_bool b"
| "trueOrFalse (Tty oot) = trueOrFalse_OnOffTty oot"

text \<open>
  The switch statements of \<^verbatim>\<open>run_backtracer\<close>, one definition each. A switch
  without a \<^verbatim>\<open>default\<close> label assigns nothing for a value it has no case for.
\<close>

definition switch_algorithm :: "BacktraceSettings \<Rightarrow> launcher \<Rightarrow> launcher" where
  "switch_algorithm s st =
     (case algorithm s of
        UnwindAlgorithm_Fast \<Rightarrow> set_argv 2 ''fast'' st
      | _ \<Rightarrow> set_argv 2 ''precise'' st)"

definition switch_threads :: "BacktraceSettings \<Rightarrow> launcher \<Rightarrow> launcher" where
  "switch_threads s st =
     (case threads s of
        ThreadsToShow_Preset \<Rightarrow> set_argv 16 ''preset'' st
      | ThreadsToShow_All \<Rightarrow> set_argv 16 ''all'' st
      | ThreadsToShow_Crashed \<Rightarrow> set_argv 16 ''crashed'' st
      | ThreadsToShow_other _ \<Rightarrow> st)"

definition switch_registers :: "BacktraceSettings \<Rightarrow> launcher \<Rightarrow> launcher" where
  "switch_registers s st =
     (case registers s of
        RegistersToShow_Preset \<Rightarrow> set_argv 18 ''preset'' st
      | RegistersToShow_None \<Rightarrow> set_argv 18 ''none'' st
      | RegistersToShow_All \<Rightarrow> set_argv 18 ''all'' st
      | RegistersToShow_Crashed \<Rightarrow> set_argv 18 ''crashed'' st
      | RegistersToShow_other _ \<Rightarrow> st)"

definition switch_images :: "BacktraceSettings \<Rightarrow> launcher \<Rightarrow> launcher" where
  "switch_images s st =
     (case images s of
        ImagesToShow_Preset \<Rightarrow> set_argv 20 ''preset'' st
      | ImagesToShow_None \<Rightarrow> set_argv 20 ''none'' st
      | ImagesToShow_All \<Rightarrow> set_argv 20 ''all'' st
      | ImagesToShow_Mentioned \<Rightarrow> set_argv 20 ''mentioned'' st
      | ImagesToShow_other _ \<Rightarrow> st)"

definition switch_preset :: "BacktraceSettings \<Rightarrow> launcher \<Rightarrow> launcher" where
  "switch_preset s st =
     (case preset s of
        Preset_Friendly \<Rightarrow> set_argv 12 ''friendly'' st
      | Preset_Medium \<Rightarrow> set_argv 12 ''medium'' st
      | _ \<Rightarrow> set_argv 12 ''full'' st)"

definition switch_sanitize :: "BacktraceSettings \<Rightarrow> launcher \<Rightarrow> launcher" where
  "switch_sanitize s st =
     (case sanitize s of
        SanitizePaths_Preset \<Rightarrow> set_argv 26 ''preset'' st
      | SanitizePaths_Off \<Rightarrow> set_argv 26 ''false'' st
      | SanitizePaths_On \<Rightarrow> set_argv 26 ''true'' st
      | SanitizePaths_other _ \<Rightarrow> st)"

definition switch_outputTo :: "BacktraceSettings \<Rightarrow> launcher \<Rightarrow> launcher" where
  "switch_outputTo s st =
     (case outputTo s of
        OutputTo_Stdout \<Rightarrow> set_argv 30 ''stdout'' st
      | OutputTo_Auto \<Rightarrow> set_argv 30 ''stderr'' st
      | OutputTo_Stderr \<Rightarrow> set_argv 30 ''stderr'' st
      | OutputTo_other _ \<Rightarrow> st)"

text \<open>The assignments to \<^verbatim>\<open>backtracer_argv\<close>, in the order of the source.\<close>

definition set_options :: "BacktraceSettings \<Rightarrow> launcher \<Rightarrow> launcher" where
  "set_options s st0 =
     (let st1 = switch_algorithm s st0;
          st2 = set_argv 4 (trueOrFalse (demangle s)) st1;
          st3 = set_argv 6 (trueOrFalse (interactive s)) st2;
          st4 = set_argv 8 (trueOrFalse (color s)) st3;
          st5 = switch_threads s st4;
          st6 = switch_registers s st5;
          st7 = switch_images s st6;
          st8 = switch_preset s st7;
          st9 = switch_sanitize s st8;
          st10 = switch_outputTo s st9
      in set_argv 28 (trueOrFalse (cache s)) st10)"

text \<open>
  \<^verbatim>\<open>run_backtracer\<close> up to its last statement, the call of the external
  \<^verbatim>\<open>_swift_spawnBacktracer(backtracer_argv, memserver_fd)\<close>: the result is the state
  that call is given. \<open>crashInfo_addr\<close> is the address \<^verbatim>\<open>&crashInfo\<close>.
\<close>

definition run_backtracer :: "BacktraceSettings \<Rightarrow> 64 word \<Rightarrow> launcher \<Rightarrow> launcher option" where
  "run_backtracer s crashInfo_addr st0 =
     (let st1 = set_options s st0 in
      do {
        tb \<leftarrow> format_unsigned (timeout s) (timeout_buf st1);
        lb \<leftarrow> (if limit s <s 0 then strcpy (limit_buf st1) ''none''
               else format_unsigned (limit s) (limit_buf st1));
        pb \<leftarrow> format_unsigned (top s) (top_buf st1);
        ab \<leftarrow> format_address crashInfo_addr (addr_buf st1);
        Some (st1\<lparr>timeout_buf := tb, limit_buf := lb, top_buf := pb, addr_buf := ab\<rparr>)
      })"

text \<open>The strings the spawned process receives: each entry read as a C string.\<close>

definition arg_string :: "launcher \<Rightarrow> arg \<Rightarrow> string option" where
  "arg_string st a =
     (case a of
        Literal s \<Rightarrow> Some s
      | Addr_buf \<Rightarrow> c_string (addr_buf st)
      | Timeout_buf \<Rightarrow> c_string (timeout_buf st)
      | Limit_buf \<Rightarrow> c_string (limit_buf st)
      | Top_buf \<Rightarrow> c_string (top_buf st))"

definition argv_strings :: "launcher \<Rightarrow> string option list" where
  "argv_strings st = map (arg_string st) (backtracer_argv st)"

definition launcher_init :: launcher where
  "launcher_init =
     \<lparr>backtracer_argv = backtracer_argv_init, addr_buf = replicate 18 0,
      timeout_buf = replicate 22 0, limit_buf = replicate 22 0, top_buf = replicate 22 0\<rparr>"

definition example_settings :: BacktraceSettings where
  "example_settings =
     \<lparr>algorithm = UnwindAlgorithm_Fast, demangle = Bool True, interactive = Tty (OnOffTty_other 0),
      color = Tty OnOffTty_On, timeout = 30, threads = ThreadsToShow_All,
      registers = RegistersToShow_Crashed, images = ImagesToShow_Mentioned, limit = -1, top = 16,
      sanitize = SanitizePaths_Off, preset = Preset_Medium, cache = Bool False,
      outputTo = OutputTo_Auto\<rparr>"

subsection \<open>The argument vector that is built\<close>

lemma list_update_Cons_numeral: "(x # xs)[numeral k := y] = x # xs[pred_numeral k := y]"
  by (simp add: numeral_eq_Suc)

lemma set_argv_sel:
  "backtracer_argv (set_argv i v st) = (backtracer_argv st)[i := Literal v]"
  "addr_buf (set_argv i v st) = addr_buf st"
  "timeout_buf (set_argv i v st) = timeout_buf st"
  "limit_buf (set_argv i v st) = limit_buf st"
  "top_buf (set_argv i v st) = top_buf st"
  by (simp_all add: set_argv_def)

lemma switch_algorithm_argv:
  "backtracer_argv (switch_algorithm s st) = (backtracer_argv st)
     [2 := Literal (if algorithm s = UnwindAlgorithm_Fast then ''fast'' else ''precise'')]"
  by (cases "algorithm s") (simp_all add: switch_algorithm_def set_argv_sel)

lemma switch_threads_argv:
  "backtracer_argv st ! 16 = Literal ''preset'' \<Longrightarrow> 16 < length (backtracer_argv st) \<Longrightarrow>
   backtracer_argv (switch_threads s st) = (backtracer_argv st)
     [16 := Literal (case threads s of
               ThreadsToShow_Preset \<Rightarrow> ''preset''
             | ThreadsToShow_All \<Rightarrow> ''all''
             | ThreadsToShow_Crashed \<Rightarrow> ''crashed''
             | ThreadsToShow_other _ \<Rightarrow> ''preset'')]"
proof (cases "threads s")
  case (ThreadsToShow_other x)
  assume "backtracer_argv st ! 16 = Literal ''preset''"
  then have "(backtracer_argv st)[16 := Literal ''preset''] = backtracer_argv st"
    by (metis list_update_id)
  with ThreadsToShow_other show ?thesis by (simp add: switch_threads_def)
qed (simp_all add: switch_threads_def set_argv_sel)

lemma switch_registers_argv:
  "backtracer_argv st ! 18 = Literal ''preset'' \<Longrightarrow> 18 < length (backtracer_argv st) \<Longrightarrow>
   backtracer_argv (switch_registers s st) = (backtracer_argv st)
     [18 := Literal (case registers s of
               RegistersToShow_Preset \<Rightarrow> ''preset''
             | RegistersToShow_None \<Rightarrow> ''none''
             | RegistersToShow_All \<Rightarrow> ''all''
             | RegistersToShow_Crashed \<Rightarrow> ''crashed''
             | RegistersToShow_other _ \<Rightarrow> ''preset'')]"
proof (cases "registers s")
  case (RegistersToShow_other x)
  assume "backtracer_argv st ! 18 = Literal ''preset''"
  then have "(backtracer_argv st)[18 := Literal ''preset''] = backtracer_argv st"
    by (metis list_update_id)
  with RegistersToShow_other show ?thesis by (simp add: switch_registers_def)
qed (simp_all add: switch_registers_def set_argv_sel)

lemma switch_images_argv:
  "backtracer_argv st ! 20 = Literal ''preset'' \<Longrightarrow> 20 < length (backtracer_argv st) \<Longrightarrow>
   backtracer_argv (switch_images s st) = (backtracer_argv st)
     [20 := Literal (case images s of
               ImagesToShow_Preset \<Rightarrow> ''preset''
             | ImagesToShow_None \<Rightarrow> ''none''
             | ImagesToShow_All \<Rightarrow> ''all''
             | ImagesToShow_Mentioned \<Rightarrow> ''mentioned''
             | ImagesToShow_other _ \<Rightarrow> ''preset'')]"
proof (cases "images s")
  case (ImagesToShow_other x)
  assume "backtracer_argv st ! 20 = Literal ''preset''"
  then have "(backtracer_argv st)[20 := Literal ''preset''] = backtracer_argv st"
    by (metis list_update_id)
  with ImagesToShow_other show ?thesis by (simp add: switch_images_def)
qed (simp_all add: switch_images_def set_argv_sel)

lemma switch_preset_argv:
  "backtracer_argv (switch_preset s st) = (backtracer_argv st)
     [12 := Literal (case preset s of
               Preset_Friendly \<Rightarrow> ''friendly''
             | Preset_Medium \<Rightarrow> ''medium''
             | Preset_other _ \<Rightarrow> ''full'')]"
  by (cases "preset s") (simp_all add: switch_preset_def set_argv_sel)

lemma switch_sanitize_argv:
  "backtracer_argv st ! 26 = Literal ''preset'' \<Longrightarrow> 26 < length (backtracer_argv st) \<Longrightarrow>
   backtracer_argv (switch_sanitize s st) = (backtracer_argv st)
     [26 := Literal (case sanitize s of
               SanitizePaths_Preset \<Rightarrow> ''preset''
             | SanitizePaths_Off \<Rightarrow> ''false''
             | SanitizePaths_On \<Rightarrow> ''true''
             | SanitizePaths_other _ \<Rightarrow> ''preset'')]"
proof (cases "sanitize s")
  case (SanitizePaths_other x)
  assume "backtracer_argv st ! 26 = Literal ''preset''"
  then have "(backtracer_argv st)[26 := Literal ''preset''] = backtracer_argv st"
    by (metis list_update_id)
  with SanitizePaths_other show ?thesis by (simp add: switch_sanitize_def)
qed (simp_all add: switch_sanitize_def set_argv_sel)

lemma switch_outputTo_argv:
  "backtracer_argv st ! 30 = Literal ''stdout'' \<Longrightarrow> 30 < length (backtracer_argv st) \<Longrightarrow>
   backtracer_argv (switch_outputTo s st) = (backtracer_argv st)
     [30 := Literal (case outputTo s of
               OutputTo_Stdout \<Rightarrow> ''stdout''
             | OutputTo_Auto \<Rightarrow> ''stderr''
             | OutputTo_Stderr \<Rightarrow> ''stderr''
             | OutputTo_other _ \<Rightarrow> ''stdout'')]"
proof (cases "outputTo s")
  case (OutputTo_other x)
  assume "backtracer_argv st ! 30 = Literal ''stdout''"
  then have "(backtracer_argv st)[30 := Literal ''stdout''] = backtracer_argv st"
    by (metis list_update_id)
  with OutputTo_other show ?thesis by (simp add: switch_outputTo_def)
qed (simp_all add: switch_outputTo_def set_argv_sel)

lemma switch_buffers:
  "addr_buf (switch_algorithm s st) = addr_buf st"
  "timeout_buf (switch_algorithm s st) = timeout_buf st"
  "limit_buf (switch_algorithm s st) = limit_buf st"
  "top_buf (switch_algorithm s st) = top_buf st"
  "addr_buf (switch_threads s st) = addr_buf st"
  "timeout_buf (switch_threads s st) = timeout_buf st"
  "limit_buf (switch_threads s st) = limit_buf st"
  "top_buf (switch_threads s st) = top_buf st"
  "addr_buf (switch_registers s st) = addr_buf st"
  "timeout_buf (switch_registers s st) = timeout_buf st"
  "limit_buf (switch_registers s st) = limit_buf st"
  "top_buf (switch_registers s st) = top_buf st"
  "addr_buf (switch_images s st) = addr_buf st"
  "timeout_buf (switch_images s st) = timeout_buf st"
  "limit_buf (switch_images s st) = limit_buf st"
  "top_buf (switch_images s st) = top_buf st"
  "addr_buf (switch_preset s st) = addr_buf st"
  "timeout_buf (switch_preset s st) = timeout_buf st"
  "limit_buf (switch_preset s st) = limit_buf st"
  "top_buf (switch_preset s st) = top_buf st"
  "addr_buf (switch_sanitize s st) = addr_buf st"
  "timeout_buf (switch_sanitize s st) = timeout_buf st"
  "limit_buf (switch_sanitize s st) = limit_buf st"
  "top_buf (switch_sanitize s st) = top_buf st"
  "addr_buf (switch_outputTo s st) = addr_buf st"
  "timeout_buf (switch_outputTo s st) = timeout_buf st"
  "limit_buf (switch_outputTo s st) = limit_buf st"
  "top_buf (switch_outputTo s st) = top_buf st"
  by (simp_all add: switch_algorithm_def switch_threads_def switch_registers_def
      switch_images_def switch_preset_def switch_sanitize_def switch_outputTo_def set_argv_sel
      split: UnwindAlgorithm.split ThreadsToShow.split RegistersToShow.split ImagesToShow.split
        Preset.split SanitizePaths.split OutputTo.split)

lemma set_options_buffers:
  "addr_buf (set_options s st) = addr_buf st"
  "timeout_buf (set_options s st) = timeout_buf st"
  "limit_buf (set_options s st) = limit_buf st"
  "top_buf (set_options s st) = top_buf st"
  by (simp_all add: set_options_def Let_def switch_buffers set_argv_sel)

lemma set_options_argv:
  assumes "backtracer_argv st = backtracer_argv_init"
  shows "backtracer_argv (set_options s st) =
     [Literal ''swift-backtrace'',
      Literal ''--unwind'',
      Literal (if algorithm s = UnwindAlgorithm_Fast then ''fast'' else ''precise''),
      Literal ''--demangle'', Literal (trueOrFalse (demangle s)),
      Literal ''--interactive'', Literal (trueOrFalse (interactive s)),
      Literal ''--color'', Literal (trueOrFalse (color s)),
      Literal ''--timeout'', Timeout_buf,
      Literal ''--preset'',
      Literal (case preset s of
                 Preset_Friendly \<Rightarrow> ''friendly''
               | Preset_Medium \<Rightarrow> ''medium''
               | Preset_other _ \<Rightarrow> ''full''),
      Literal ''--crashinfo'', Addr_buf,
      Literal ''--threads'',
      Literal (case threads s of
                 ThreadsToShow_Preset \<Rightarrow> ''preset''
               | ThreadsToShow_All \<Rightarrow> ''all''
               | ThreadsToShow_Crashed \<Rightarrow> ''crashed''
               | ThreadsToShow_other _ \<Rightarrow> ''preset''),
      Literal ''--registers'',
      Literal (case registers s of
                 RegistersToShow_Preset \<Rightarrow> ''preset''
               | RegistersToShow_None \<Rightarrow> ''none''
               | RegistersToShow_All \<Rightarrow> ''all''
               | RegistersToShow_Crashed \<Rightarrow> ''crashed''
               | RegistersToShow_other _ \<Rightarrow> ''preset''),
      Literal ''--images'',
      Literal (case images s of
                 ImagesToShow_Preset \<Rightarrow> ''preset''
               | ImagesToShow_None \<Rightarrow> ''none''
               | ImagesToShow_All \<Rightarrow> ''all''
               | ImagesToShow_Mentioned \<Rightarrow> ''mentioned''
               | ImagesToShow_other _ \<Rightarrow> ''preset''),
      Literal ''--limit'', Limit_buf,
      Literal ''--top'', Top_buf,
      Literal ''--sanitize'',
      Literal (case sanitize s of
                 SanitizePaths_Preset \<Rightarrow> ''preset''
               | SanitizePaths_Off \<Rightarrow> ''false''
               | SanitizePaths_On \<Rightarrow> ''true''
               | SanitizePaths_other _ \<Rightarrow> ''preset''),
      Literal ''--cache'', Literal (trueOrFalse (cache s)),
      Literal ''--output-to'',
      Literal (case outputTo s of
                 OutputTo_Stdout \<Rightarrow> ''stdout''
               | OutputTo_Auto \<Rightarrow> ''stderr''
               | OutputTo_Stderr \<Rightarrow> ''stderr''
               | OutputTo_other _ \<Rightarrow> ''stdout'')]"
proof -
  define st1 where "st1 = switch_algorithm s st"
  define st2 where "st2 = set_argv 4 (trueOrFalse (demangle s)) st1"
  define st3 where "st3 = set_argv 6 (trueOrFalse (interactive s)) st2"
  define st4 where "st4 = set_argv 8 (trueOrFalse (color s)) st3"
  define st5 where "st5 = switch_threads s st4"
  define st6 where "st6 = switch_registers s st5"
  define st7 where "st7 = switch_images s st6"
  define st8 where "st8 = switch_preset s st7"
  define st9 where "st9 = switch_sanitize s st8"
  define st10 where "st10 = switch_outputTo s st9"
  note ev = backtracer_argv_init_def list_update_Cons_numeral
  have a4: "backtracer_argv st4 = backtracer_argv_init
      [2 := Literal (if algorithm s = UnwindAlgorithm_Fast then ''fast'' else ''precise''),
       4 := Literal (trueOrFalse (demangle s)), 6 := Literal (trueOrFalse (interactive s)),
       8 := Literal (trueOrFalse (color s))]"
    using assms by (simp add: st4_def st3_def st2_def st1_def set_argv_sel switch_algorithm_argv)
  have a5: "backtracer_argv st5 = (backtracer_argv st4)
     [16 := Literal (case threads s of
               ThreadsToShow_Preset \<Rightarrow> ''preset''
             | ThreadsToShow_All \<Rightarrow> ''all''
             | ThreadsToShow_Crashed \<Rightarrow> ''crashed''
             | ThreadsToShow_other _ \<Rightarrow> ''preset'')]"
    unfolding st5_def by (rule switch_threads_argv) (simp_all add: a4 ev)
  have a6: "backtracer_argv st6 = (backtracer_argv st5)
     [18 := Literal (case registers s of
               RegistersToShow_Preset \<Rightarrow> ''preset''
             | RegistersToShow_None \<Rightarrow> ''none''
             | RegistersToShow_All \<Rightarrow> ''all''
             | RegistersToShow_Crashed \<Rightarrow> ''crashed''
             | RegistersToShow_other _ \<Rightarrow> ''preset'')]"
    unfolding st6_def by (rule switch_registers_argv) (simp_all add: a5 a4 ev)
  have a7: "backtracer_argv st7 = (backtracer_argv st6)
     [20 := Literal (case images s of
               ImagesToShow_Preset \<Rightarrow> ''preset''
             | ImagesToShow_None \<Rightarrow> ''none''
             | ImagesToShow_All \<Rightarrow> ''all''
             | ImagesToShow_Mentioned \<Rightarrow> ''mentioned''
             | ImagesToShow_other _ \<Rightarrow> ''preset'')]"
    unfolding st7_def by (rule switch_images_argv) (simp_all add: a6 a5 a4 ev)
  have a8: "backtracer_argv st8 = (backtracer_argv st7)
     [12 := Literal (case preset s of
               Preset_Friendly \<Rightarrow> ''friendly''
             | Preset_Medium \<Rightarrow> ''medium''
             | Preset_other _ \<Rightarrow> ''full'')]"
    unfolding st8_def by (rule switch_preset_argv)
  have a9: "backtracer_argv st9 = (backtracer_argv st8)
     [26 := Literal (case sanitize s of
               SanitizePaths_Preset \<Rightarrow> ''preset''
             | SanitizePaths_Off \<Rightarrow> ''false''
             | SanitizePaths_On \<Rightarrow> ''true''
             | SanitizePaths_other _ \<Rightarrow> ''preset'')]"
    unfolding st9_def by (rule switch_sanitize_argv) (simp_all add: a8 a7 a6 a5 a4 ev)
  have a10: "backtracer_argv st10 = (backtracer_argv st9)
     [30 := Literal (case outputTo s of
               OutputTo_Stdout \<Rightarrow> ''stdout''
             | OutputTo_Auto \<Rightarrow> ''stderr''
             | OutputTo_Stderr \<Rightarrow> ''stderr''
             | OutputTo_other _ \<Rightarrow> ''stdout'')]"
    unfolding st10_def by (rule switch_outputTo_argv) (simp_all add: a9 a8 a7 a6 a5 a4 ev)
  have "set_options s st = set_argv 28 (trueOrFalse (cache s)) st10"
    by (simp add: set_options_def Let_def st1_def st2_def st3_def st4_def st5_def st6_def
        st7_def st8_def st9_def st10_def)
  then show ?thesis
    by (simp add: set_argv_sel a10 a9 a8 a7 a6 a5 a4 ev)
qed

lemma strcpy_c_string:
  assumes "length src + 1 \<le> length dest" and "0 \<notin> set (ascii src)"
  shows "\<exists>r. strcpy dest src = Some r \<and> c_string r = Some src"
proof -
  define r where "r = ascii src @ [0] @ drop (length src + 1) dest"
  have la: "length (ascii src) = length src" by (simp add: ascii_def)
  have "c_string r = Some src \<and> take (length src + 1) r = ascii src @ [0]"
  proof (rule c_string_prefix)
    show "length src < length r" using la by (simp add: r_def)
    show "\<forall>i<length src. r ! i = ascii src ! i" using la by (simp add: r_def nth_append)
    show "r ! length src = 0" using la by (simp add: r_def nth_append)
    show "0 \<notin> set (ascii src)" by (rule assms(2))
  qed
  then show ?thesis using assms(1) by (simp add: strcpy_def r_def)
qed

lemma limit_nonnegative_unat: "\<not> (w :: 32 word) <s 0 \<Longrightarrow> unat w = nat (sint w)"
proof -
  assume "\<not> w <s 0"
  then have nonneg: "0 \<le> sint w" by (simp add: word_sless_alt)
  have "sint w < 2 ^ 31" using sint_less [of w] by simp
  then have "sint w < 2 ^ 32" by simp
  with nonneg have "take_bit 32 (sint w) = sint w" by (simp add: take_bit_int_eq_self)
  then have "uint w = sint w" by (simp add: uint_sint)
  moreover have "unat w = nat (uint w)" by (simp only: unat_eq_nat_uint)
  ultimately show ?thesis by simp
qed

lemma run_backtracer_argv_strings:
  assumes argv: "backtracer_argv st = backtracer_argv_init"
    and la: "length (addr_buf st) = 18" and lt: "length (timeout_buf st) = 22"
    and ll: "length (limit_buf st) = 22" and lp: "length (top_buf st) = 22"
  shows "\<exists>st'. run_backtracer s crashInfo_addr st = Some st' \<and>
    argv_strings st' = map Some
     [''swift-backtrace'',
      ''--unwind'', (if algorithm s = UnwindAlgorithm_Fast then ''fast'' else ''precise''),
      ''--demangle'', trueOrFalse (demangle s),
      ''--interactive'', trueOrFalse (interactive s),
      ''--color'', trueOrFalse (color s),
      ''--timeout'', decimal_repr (unat (timeout s)),
      ''--preset'',
      (case preset s of
         Preset_Friendly \<Rightarrow> ''friendly''
       | Preset_Medium \<Rightarrow> ''medium''
       | Preset_other _ \<Rightarrow> ''full''),
      ''--crashinfo'', hex_repr (unat crashInfo_addr),
      ''--threads'',
      (case threads s of
         ThreadsToShow_Preset \<Rightarrow> ''preset''
       | ThreadsToShow_All \<Rightarrow> ''all''
       | ThreadsToShow_Crashed \<Rightarrow> ''crashed''
       | ThreadsToShow_other _ \<Rightarrow> ''preset''),
      ''--registers'',
      (case registers s of
         RegistersToShow_Preset \<Rightarrow> ''preset''
       | RegistersToShow_None \<Rightarrow> ''none''
       | RegistersToShow_All \<Rightarrow> ''all''
       | RegistersToShow_Crashed \<Rightarrow> ''crashed''
       | RegistersToShow_other _ \<Rightarrow> ''preset''),
      ''--images'',
      (case images s of
         ImagesToShow_Preset \<Rightarrow> ''preset''
       | ImagesToShow_None \<Rightarrow> ''none''
       | ImagesToShow_All \<Rightarrow> ''all''
       | ImagesToShow_Mentioned \<Rightarrow> ''mentioned''
       | ImagesToShow_other _ \<Rightarrow> ''preset''),
      ''--limit'',
      (if limit s <s 0 then ''none'' else decimal_repr (nat (sint (limit s)))),
      ''--top'', decimal_repr (unat (top s)),
      ''--sanitize'',
      (case sanitize s of
         SanitizePaths_Preset \<Rightarrow> ''preset''
       | SanitizePaths_Off \<Rightarrow> ''false''
       | SanitizePaths_On \<Rightarrow> ''true''
       | SanitizePaths_other _ \<Rightarrow> ''preset''),
      ''--cache'', trueOrFalse (cache s),
      ''--output-to'',
      (case outputTo s of
         OutputTo_Stdout \<Rightarrow> ''stdout''
       | OutputTo_Auto \<Rightarrow> ''stderr''
       | OutputTo_Stderr \<Rightarrow> ''stderr''
       | OutputTo_other _ \<Rightarrow> ''stdout'')]"
proof -
  define st1 where "st1 = set_options s st"
  have bufs: "length (addr_buf st1) = 18" "length (timeout_buf st1) = 22"
    "length (limit_buf st1) = 22" "length (top_buf st1) = 22"
    using la lt ll lp by (simp_all add: st1_def set_options_buffers)
  obtain tb where tb: "format_unsigned (timeout s) (timeout_buf st1) = Some tb"
    "c_string tb = Some (decimal_repr (unat (timeout s)))"
    using format_unsigned_c_string [OF bufs(2)] by blast
  obtain pb where pb: "format_unsigned (top s) (top_buf st1) = Some pb"
    "c_string pb = Some (decimal_repr (unat (top s)))"
    using format_unsigned_c_string [OF bufs(4)] by blast
  obtain ab where ab: "format_address crashInfo_addr (addr_buf st1) = Some ab"
    "c_string ab = Some (hex_repr (unat crashInfo_addr))"
    using format_address_c_string [OF bufs(1)] by blast
  have "\<exists>lb. (if limit s <s 0 then strcpy (limit_buf st1) ''none''
               else format_unsigned (limit s) (limit_buf st1)) = Some lb \<and>
      c_string lb = Some (if limit s <s 0 then ''none'' else decimal_repr (nat (sint (limit s))))"
  proof (cases "limit s <s 0")
    case True
    have "\<exists>r. strcpy (limit_buf st1) ''none'' = Some r \<and> c_string r = Some ''none''"
      by (rule strcpy_c_string) (simp_all add: bufs ascii_def)
    with True show ?thesis by simp
  next
    case False
    then show ?thesis
      using format_unsigned_c_string [OF bufs(3), of "limit s"]
      by (simp add: limit_nonnegative_unat) blast
  qed
  then obtain lb where lb: "(if limit s <s 0 then strcpy (limit_buf st1) ''none''
               else format_unsigned (limit s) (limit_buf st1)) = Some lb"
      "c_string lb = Some (if limit s <s 0 then ''none'' else decimal_repr (nat (sint (limit s))))"
    by blast
  define st' where "st' = st1\<lparr>timeout_buf := tb, limit_buf := lb, top_buf := pb, addr_buf := ab\<rparr>"
  have run: "run_backtracer s crashInfo_addr st = Some st'"
    using tb(1) lb(1) pb(1) ab(1)
    by (simp add: run_backtracer_def st1_def [symmetric] st'_def)
  have "backtracer_argv st' = backtracer_argv st1" by (simp add: st'_def)
  then have "argv_strings st' = map (arg_string st') (backtracer_argv (set_options s st))"
    by (simp add: argv_strings_def st1_def)
  also have "\<dots> = map Some
     [''swift-backtrace'',
      ''--unwind'', (if algorithm s = UnwindAlgorithm_Fast then ''fast'' else ''precise''),
      ''--demangle'', trueOrFalse (demangle s),
      ''--interactive'', trueOrFalse (interactive s),
      ''--color'', trueOrFalse (color s),
      ''--timeout'', decimal_repr (unat (timeout s)),
      ''--preset'',
      (case preset s of
         Preset_Friendly \<Rightarrow> ''friendly''
       | Preset_Medium \<Rightarrow> ''medium''
       | Preset_other _ \<Rightarrow> ''full''),
      ''--crashinfo'', hex_repr (unat crashInfo_addr),
      ''--threads'',
      (case threads s of
         ThreadsToShow_Preset \<Rightarrow> ''preset''
       | ThreadsToShow_All \<Rightarrow> ''all''
       | ThreadsToShow_Crashed \<Rightarrow> ''crashed''
       | ThreadsToShow_other _ \<Rightarrow> ''preset''),
      ''--registers'',
      (case registers s of
         RegistersToShow_Preset \<Rightarrow> ''preset''
       | RegistersToShow_None \<Rightarrow> ''none''
       | RegistersToShow_All \<Rightarrow> ''all''
       | RegistersToShow_Crashed \<Rightarrow> ''crashed''
       | RegistersToShow_other _ \<Rightarrow> ''preset''),
      ''--images'',
      (case images s of
         ImagesToShow_Preset \<Rightarrow> ''preset''
       | ImagesToShow_None \<Rightarrow> ''none''
       | ImagesToShow_All \<Rightarrow> ''all''
       | ImagesToShow_Mentioned \<Rightarrow> ''mentioned''
       | ImagesToShow_other _ \<Rightarrow> ''preset''),
      ''--limit'',
      (if limit s <s 0 then ''none'' else decimal_repr (nat (sint (limit s)))),
      ''--top'', decimal_repr (unat (top s)),
      ''--sanitize'',
      (case sanitize s of
         SanitizePaths_Preset \<Rightarrow> ''preset''
       | SanitizePaths_Off \<Rightarrow> ''false''
       | SanitizePaths_On \<Rightarrow> ''true''
       | SanitizePaths_other _ \<Rightarrow> ''preset''),
      ''--cache'', trueOrFalse (cache s),
      ''--output-to'',
      (case outputTo s of
         OutputTo_Stdout \<Rightarrow> ''stdout''
       | OutputTo_Auto \<Rightarrow> ''stderr''
       | OutputTo_Stderr \<Rightarrow> ''stderr''
       | OutputTo_other _ \<Rightarrow> ''stdout'')]"
    using tb(2) lb(2) pb(2) ab(2)
    by (simp only: set_options_argv [OF argv])
       (simp add: arg_string_def st'_def)
  finally show ?thesis using run by blast
qed

lemma trueOrFalse_text:
  "trueOrFalse f = (if f = Bool True \<or> f = Tty OnOffTty_On then ''true'' else ''false'')"
  by (cases f) (auto simp add: trueOrFalse_OnOffTty_def trueOrFalse_bool_def)

text \<open>
  Claim C8. Started on the static \<^verbatim>\<open>backtracer_argv\<close>, \<^verbatim>\<open>run_backtracer\<close> hands
  the spawner exactly the following 31 strings: the tool name and the fifteen flag names
  at their fixed positions, each followed by the text of its setting. The value of
  \<^verbatim>\<open>--unwind\<close> is \<open>fast\<close> or \<open>precise\<close>; a flag given to \<^verbatim>\<open>trueOrFalse\<close> is
  \<open>true\<close> for the \<^verbatim>\<open>bool\<close> \<open>true\<close> and for \<^verbatim>\<open>OnOffTty::On\<close> and \<open>false\<close>
  otherwise; the values of \<^verbatim>\<open>--timeout\<close> and \<^verbatim>\<open>--top\<close> are the decimal
  representations of the settings; the value of \<^verbatim>\<open>--limit\<close> is the literal
  \<open>none\<close> for a negative limit and the decimal representation of the limit otherwise;
  the value of \<^verbatim>\<open>--crashinfo\<close> is the hexadecimal address of \<^verbatim>\<open>crashInfo\<close>; each
  display mode, the preset, the sanitize mode and the output target give the text of
  their enumerator, and a value for which a \<^verbatim>\<open>switch\<close> has neither a case nor a
  \<^verbatim>\<open>default\<close> leaves the text of the static array.
\<close>

theorem run_backtracer_argument_vector:
  assumes "backtracer_argv st = backtracer_argv_init"
    and "length (addr_buf st) = 18" and "length (timeout_buf st) = 22"
    and "length (limit_buf st) = 22" and "length (top_buf st) = 22"
  shows "\<exists>st'. run_backtracer s crashInfo_addr st = Some st' \<and>
    argv_strings st' = map Some
     [''swift-backtrace'',
      ''--unwind'', (if algorithm s = UnwindAlgorithm_Fast then ''fast'' else ''precise''),
      ''--demangle'',
      (if demangle s = Bool True \<or> demangle s = Tty OnOffTty_On then ''true'' else ''false''),
      ''--interactive'',
      (if interactive s = Bool True \<or> interactive s = Tty OnOffTty_On then ''true'' else ''false''),
      ''--color'',
      (if color s = Bool True \<or> color s = Tty OnOffTty_On then ''true'' else ''false''),
      ''--timeout'', decimal_repr (unat (timeout s)),
      ''--preset'',
      (case preset s of
         Preset_Friendly \<Rightarrow> ''friendly''
       | Preset_Medium \<Rightarrow> ''medium''
       | Preset_other _ \<Rightarrow> ''full''),
      ''--crashinfo'', hex_repr (unat crashInfo_addr),
      ''--threads'',
      (case threads s of
         ThreadsToShow_Preset \<Rightarrow> ''preset''
       | ThreadsToShow_All \<Rightarrow> ''all''
       | ThreadsToShow_Crashed \<Rightarrow> ''crashed''
       | ThreadsToShow_other _ \<Rightarrow> ''preset''),
      ''--registers'',
      (case registers s of
         RegistersToShow_Preset \<Rightarrow> ''preset''
       | RegistersToShow_None \<Rightarrow> ''none''
       | RegistersToShow_All \<Rightarrow> ''all''
       | RegistersToShow_Crashed \<Rightarrow> ''crashed''
       | RegistersToShow_other _ \<Rightarrow> ''preset''),
      ''--images'',
      (case images s of
         ImagesToShow_Preset \<Rightarrow> ''preset''
       | ImagesToShow_None \<Rightarrow> ''none''
       | ImagesToShow_All \<Rightarrow> ''all''
       | ImagesToShow_Mentioned \<Rightarrow> ''mentioned''
       | ImagesToShow_other _ \<Rightarrow> ''preset''),
      ''--limit'',
      (if limit s <s 0 then ''none'' else decimal_repr (nat (sint (limit s)))),
      ''--top'', decimal_repr (unat (top s)),
      ''--sanitize'',
      (case sanitize s of
         SanitizePaths_Preset \<Rightarrow> ''preset''
       | SanitizePaths_Off \<Rightarrow> ''false''
       | SanitizePaths_On \<Rightarrow> ''true''
       | SanitizePaths_other _ \<Rightarrow> ''preset''),
      ''--cache'',
      (if cache s = Bool True \<or> cache s = Tty OnOffTty_On then ''true'' else ''false''),
      ''--output-to'',
      (case outputTo s of
         OutputTo_Stdout \<Rightarrow> ''stdout''
       | OutputTo_Auto \<Rightarrow> ''stderr''
       | OutputTo_Stderr \<Rightarrow> ''stderr''
       | OutputTo_other _ \<Rightarrow> ''stdout'')]"
  using run_backtracer_argv_strings [OF assms, of s crashInfo_addr]
  by (simp only: trueOrFalse_text)

text \<open>
  A run on the zero-initialised globals \<open>launcher_init\<close> with a negative limit, two
  flags that are on and two that are off, and the same run with the limit 64.
\<close>

lemma decimal_repr_examples:
  "decimal_repr 64 = ''64''" "decimal_repr 30 = ''30''" "decimal_repr 16 = ''16''"
  by (simp_all add: decimal_repr.simps digit_char_def)

lemma hex_repr_example: "hex_repr 0x55d0c0ffee10 = ''55d0c0ffee10''"
  by (simp add: hex_repr.simps digit_char_def)

theorem run_backtracer_argument_vector_witness:
  "backtracer_argv launcher_init = backtracer_argv_init \<and>
   length (addr_buf launcher_init) = 18 \<and> length (timeout_buf launcher_init) = 22 \<and>
   length (limit_buf launcher_init) = 22 \<and> length (top_buf launcher_init) = 22 \<and>
   (\<exists>st'. run_backtracer example_settings 0x55d0c0ffee10 launcher_init = Some st' \<and>
      argv_strings st' = map Some
        [''swift-backtrace'', ''--unwind'', ''fast'', ''--demangle'', ''true'',
         ''--interactive'', ''false'', ''--color'', ''true'', ''--timeout'', ''30'',
         ''--preset'', ''medium'', ''--crashinfo'', ''55d0c0ffee10'', ''--threads'', ''all'',
         ''--registers'', ''crashed'', ''--images'', ''mentioned'', ''--limit'', ''none'',
         ''--top'', ''16'', ''--sanitize'', ''false'', ''--cache'', ''false'',
         ''--output-to'', ''stderr'']) \<and>
   (\<exists>st'. run_backtracer (example_settings\<lparr>limit := 64\<rparr>) 0x55d0c0ffee10 launcher_init = Some st' \<and>
      argv_strings st' ! 21 = Some ''--limit'' \<and> argv_strings st' ! 22 = Some ''64'')"
proof -
  have i: "backtracer_argv launcher_init = backtracer_argv_init"
    "length (addr_buf launcher_init) = 18" "length (timeout_buf launcher_init) = 22"
    "length (limit_buf launcher_init) = 22" "length (top_buf launcher_init) = 22"
    by (simp_all add: launcher_init_def)
  have neg: "limit example_settings <s 0"
    by (simp add: example_settings_def word_sless_alt)
  have pos: "\<not> limit (example_settings\<lparr>limit := 64\<rparr>) <s 0" "nat (sint (64 :: 32 word)) = 64"
    by (simp_all add: word_sless_alt)
  have f: "algorithm example_settings = UnwindAlgorithm_Fast"
    "demangle example_settings = Bool True"
    "interactive example_settings = Tty (OnOffTty_other 0)"
    "color example_settings = Tty OnOffTty_On"
    "unat (timeout example_settings) = 30"
    "threads example_settings = ThreadsToShow_All"
    "registers example_settings = RegistersToShow_Crashed"
    "images example_settings = ImagesToShow_Mentioned"
    "unat (top example_settings) = 16"
    "sanitize example_settings = SanitizePaths_Off"
    "preset example_settings = Preset_Medium"
    "cache example_settings = Bool False"
    "outputTo example_settings = OutputTo_Auto"
    by (simp_all add: example_settings_def)
  from run_backtracer_argument_vector [OF i, of example_settings "0x55d0c0ffee10"]
  have a: "\<exists>st'. run_backtracer example_settings 0x55d0c0ffee10 launcher_init = Some st' \<and>
      argv_strings st' = map Some
        [''swift-backtrace'', ''--unwind'', ''fast'', ''--demangle'', ''true'',
         ''--interactive'', ''false'', ''--color'', ''true'', ''--timeout'', ''30'',
         ''--preset'', ''medium'', ''--crashinfo'', ''55d0c0ffee10'', ''--threads'', ''all'',
         ''--registers'', ''crashed'', ''--images'', ''mentioned'', ''--limit'', ''none'',
         ''--top'', ''16'', ''--sanitize'', ''false'', ''--cache'', ''false'',
         ''--output-to'', ''stderr'']"
    using neg by (simp add: f hex_repr_example decimal_repr_examples)
  from run_backtracer_argument_vector [OF i, of "example_settings\<lparr>limit := 64\<rparr>" "0x55d0c0ffee10"]
  obtain st' where "run_backtracer (example_settings\<lparr>limit := 64\<rparr>) 0x55d0c0ffee10 launcher_init = Some st'"
    and "argv_strings st' ! 21 = Some ''--limit''"
    and "argv_strings st' ! 22 = Some (if limit (example_settings\<lparr>limit := 64\<rparr>) <s 0 then ''none''
           else decimal_repr (nat (sint (limit (example_settings\<lparr>limit := 64\<rparr>)))))"
    by force
  then have b: "\<exists>st'. run_backtracer (example_settings\<lparr>limit := 64\<rparr>) 0x55d0c0ffee10 launcher_init = Some st' \<and>
      argv_strings st' ! 21 = Some ''--limit'' \<and> argv_strings st' ! 22 = Some ''64''"
    using pos by (simp add: decimal_repr_examples)
  show ?thesis using i a b by simp
qed

text \<open>
  Claim C10. For values that the switch statements do not name, the vector holds fixed
  fallbacks: every unwind algorithm other than \<open>Fast\<close> gives \<open>precise\<close>, every
  preset other than \<open>Friendly\<close> and \<open>Medium\<close> gives \<open>full\<close>, the output target
  \<open>Auto\<close> gives \<open>stderr\<close>, and every \<^verbatim>\<open>OnOffTty\<close> value other than \<open>On\<close> is
  rendered as \<open>false\<close>, by \<^verbatim>\<open>trueOrFalse\<close> and so in each flag value of that type.
\<close>

theorem run_backtracer_fallbacks:
  assumes "backtracer_argv st = backtracer_argv_init"
    and "length (addr_buf st) = 18" and "length (timeout_buf st) = 22"
    and "length (limit_buf st) = 22" and "length (top_buf st) = 22"
  shows "\<exists>st'. run_backtracer s crashInfo_addr st = Some st' \<and>
    (algorithm s \<noteq> UnwindAlgorithm_Fast \<longrightarrow> argv_strings st' ! 2 = Some ''precise'') \<and>
    (preset s \<noteq> Preset_Friendly \<and> preset s \<noteq> Preset_Medium \<longrightarrow>
       argv_strings st' ! 12 = Some ''full'') \<and>
    (outputTo s = OutputTo_Auto \<longrightarrow> argv_strings st' ! 30 = Some ''stderr'') \<and>
    (\<forall>oot. oot \<noteq> OnOffTty_On \<longrightarrow>
       trueOrFalse_OnOffTty oot = ''false'' \<and>
       (demangle s = Tty oot \<longrightarrow> argv_strings st' ! 4 = Some ''false'') \<and>
       (interactive s = Tty oot \<longrightarrow> argv_strings st' ! 6 = Some ''false'') \<and>
       (color s = Tty oot \<longrightarrow> argv_strings st' ! 8 = Some ''false'') \<and>
       (cache s = Tty oot \<longrightarrow> argv_strings st' ! 28 = Some ''false''))"
proof -
  from run_backtracer_argv_strings [OF assms, of s crashInfo_addr]
  obtain st' where st': "run_backtracer s crashInfo_addr st = Some st'"
    and v2: "argv_strings st' ! 2 =
       Some (if algorithm s = UnwindAlgorithm_Fast then ''fast'' else ''precise'')"
    and v12: "argv_strings st' ! 12 =
       Some (case preset s of
         Preset_Friendly \<Rightarrow> ''friendly''
       | Preset_Medium \<Rightarrow> ''medium''
       | Preset_other _ \<Rightarrow> ''full'')"
    and v30: "argv_strings st' ! 30 =
       Some (case outputTo s of
         OutputTo_Stdout \<Rightarrow> ''stdout''
       | OutputTo_Auto \<Rightarrow> ''stderr''
       | OutputTo_Stderr \<Rightarrow> ''stderr''
       | OutputTo_other _ \<Rightarrow> ''stdout'')"
    and v4: "argv_strings st' ! 4 = Some (trueOrFalse (demangle s))"
    and v6: "argv_strings st' ! 6 = Some (trueOrFalse (interactive s))"
    and v8: "argv_strings st' ! 8 = Some (trueOrFalse (color s))"
    and v28: "argv_strings st' ! 28 = Some (trueOrFalse (cache s))"
    by force
  have off: "trueOrFalse_OnOffTty oot = ''false''" if "oot \<noteq> OnOffTty_On" for oot
    using that by (simp add: trueOrFalse_OnOffTty_def trueOrFalse_bool_def)
  have p: "preset s \<noteq> Preset_Friendly \<and> preset s \<noteq> Preset_Medium \<longrightarrow>
       argv_strings st' ! 12 = Some ''full''"
    using v12 by (cases "preset s") simp_all
  show ?thesis
    apply (rule exI [of _ st'])
    using st' v2 p v30 v4 v6 v8 v28 off
    apply simp
    done
qed

definition fallback_settings :: BacktraceSettings where
  "fallback_settings =
     \<lparr>algorithm = UnwindAlgorithm_other 0, demangle = Tty (OnOffTty_other 2),
      interactive = Tty (OnOffTty_other 2), color = Tty (OnOffTty_other 2), timeout = 30,
      threads = ThreadsToShow_Preset, registers = RegistersToShow_Preset,
      images = ImagesToShow_Preset, limit = 64, top = 16, sanitize = SanitizePaths_Preset,
      preset = Preset_other 2, cache = Tty (OnOffTty_other 2), outputTo = OutputTo_Auto\<rparr>"

theorem run_backtracer_fallbacks_witness:
  "backtracer_argv launcher_init = backtracer_argv_init \<and>
   length (addr_buf launcher_init) = 18 \<and> length (timeout_buf launcher_init) = 22 \<and>
   length (limit_buf launcher_init) = 22 \<and> length (top_buf launcher_init) = 22 \<and>
   algorithm fallback_settings \<noteq> UnwindAlgorithm_Fast \<and>
   preset fallback_settings \<noteq> Preset_Friendly \<and> preset fallback_settings \<noteq> Preset_Medium \<and>
   outputTo fallback_settings = OutputTo_Auto \<and>
   OnOffTty_other 2 \<noteq> OnOffTty_On \<and>
   demangle fallback_settings = Tty (OnOffTty_other 2) \<and>
   interactive fallback_settings = Tty (OnOffTty_other 2) \<and>
   color fallback_settings = Tty (OnOffTty_other 2) \<and>
   cache fallback_settings = Tty (OnOffTty_other 2) \<and>
   trueOrFalse_OnOffTty (OnOffTty_other 2) = ''false'' \<and>
   (\<exists>st'. run_backtracer fallback_settings 0x55d0c0ffee10 launcher_init = Some st' \<and>
      argv_strings st' ! 2 = Some ''precise'' \<and> argv_strings st' ! 12 = Some ''full'' \<and>
      argv_strings st' ! 30 = Some ''stderr'' \<and> argv_strings st' ! 4 = Some ''false'' \<and>
      argv_strings st' ! 6 = Some ''false'' \<and> argv_strings st' ! 8 = Some ''false'' \<and>
      argv_strings st' ! 28 = Some ''false'')"
proof -
  have i: "backtracer_argv launcher_init = backtracer_argv_init"
    "length (addr_buf launcher_init) = 18" "length (timeout_buf launcher_init) = 22"
    "length (limit_buf launcher_init) = 22" "length (top_buf launcher_init) = 22"
    by (simp_all add: launcher_init_def)
  have h: "algorithm fallback_settings \<noteq> UnwindAlgorithm_Fast"
    "preset fallback_settings \<noteq> Preset_Friendly \<and> preset fallback_settings \<noteq> Preset_Medium"
    "outputTo fallback_settings = OutputTo_Auto"
    "OnOffTty_other 2 \<noteq> OnOffTty_On"
    "demangle fallback_settings = Tty (OnOffTty_other 2)"
    "interactive fallback_settings = Tty (OnOffTty_other 2)"
    "color fallback_settings = Tty (OnOffTty_other 2)"
    "cache fallback_settings = Tty (OnOffTty_other 2)"
    by (simp_all add: fallback_settings_def)
  from run_backtracer_fallbacks [OF i, of fallback_settings "0x55d0c0ffee10"]
  obtain st' where st': "run_backtracer fallback_settings 0x55d0c0ffee10 launcher_init = Some st'"
    and a: "algorithm fallback_settings \<noteq> UnwindAlgorithm_Fast \<longrightarrow>
       argv_strings st' ! 2 = Some ''precise''"
    and b: "preset fallback_settings \<noteq> Preset_Friendly \<and> preset fallback_settings \<noteq> Preset_Medium \<longrightarrow>
       argv_strings st' ! 12 = Some ''full''"
    and c: "outputTo fallback_settings = OutputTo_Auto \<longrightarrow> argv_strings st' ! 30 = Some ''stderr''"
    and d: "\<forall>oot. oot \<noteq> OnOffTty_On \<longrightarrow>
       trueOrFalse_OnOffTty oot = ''false'' \<and>
       (demangle fallback_settings = Tty oot \<longrightarrow> argv_strings st' ! 4 = Some ''false'') \<and>
       (interactive fallback_settings = Tty oot \<longrightarrow> argv_strings st' ! 6 = Some ''false'') \<and>
       (color fallback_settings = Tty oot \<longrightarrow> argv_strings st' ! 8 = Some ''false'') \<and>
       (cache fallback_settings = Tty oot \<longrightarrow> argv_strings st' ! 28 = Some ''false'')"
    by blast
  from d h(4) have d': "trueOrFalse_OnOffTty (OnOffTty_other 2) = ''false'' \<and>
       (demangle fallback_settings = Tty (OnOffTty_other 2) \<longrightarrow> argv_strings st' ! 4 = Some ''false'') \<and>
       (interactive fallback_settings = Tty (OnOffTty_other 2) \<longrightarrow> argv_strings st' ! 6 = Some ''false'') \<and>
       (color fallback_settings = Tty (OnOffTty_other 2) \<longrightarrow> argv_strings st' ! 8 = Some ''false'') \<and>
       (cache fallback_settings = Tty (OnOffTty_other 2) \<longrightarrow> argv_strings st' ! 28 = Some ''false'')"
    by blast
  show ?thesis using i h st' a b c d' by simp
qed

section \<open>The thread registry: reset_threads, add_thread, seen_thread\<close>

subsection \<open>The code\<close>

text \<open>
  Modelled from the spec: \<^verbatim>\<open>struct thread\<close> and \<^verbatim>\<open>struct CrashInfo\<close> are declared in
  \<^verbatim>\<open>swift/Runtime/Backtrace.h\<close>, which is not among the sources. The fields are those
  the code uses: the initialiser \<^verbatim>\<open>{ 0, (int64_t)gettid(), (uint64_t)uctx }\<close> of a
  thread record gives \<open>next\<close>, \<open>tid\<close> and the context pointer in this order
  (\<open>next\<close> is a keyword of Isar, so the fields carry the prefix \<open>thread_\<close>), and
  \<^verbatim>\<open>crashInfo\<close> has \<open>crashing_thread\<close>, \<open>signal\<close>, \<open>fault_address\<close> and
  \<open>thread_list\<close>.
\<close>

record thread =
  thread_next :: "64 word"
  thread_tid :: "64 word"
  thread_uctx :: "64 word"

record CrashInfo =
  crashing_thread :: "64 word"
  signal :: "64 word"
  fault_address :: "64 word"
  thread_list :: "64 word"

text \<open>
  The list is linked through raw addresses, so the model has an explicit store: the
  thread records by address (they live in the stack frames of the signal handlers), and
  the global \<^verbatim>\<open>crashInfo\<close>.
\<close>

record registry =
  records :: "64 word \<rightharpoonup> thread"
  crashInfo :: CrashInfo

definition reset_threads :: "64 word \<Rightarrow> registry \<Rightarrow> registry" where
  "reset_threads first st = st\<lparr>crashInfo := (crashInfo st)\<lparr>thread_list := first\<rparr>\<rparr>"

text \<open>
  \<^verbatim>\<open>add_thread\<close> in a sequential execution: nothing changes
  \<^verbatim>\<open>crashInfo.thread_list\<close> between the load and the compare-and-swap, which
  therefore succeeds at the first attempt. Writing \<^verbatim>\<open>thread->next\<close> through an address
  that holds no record changes nothing in the model.
\<close>

definition add_thread :: "64 word \<Rightarrow> registry \<Rightarrow> registry" where
  "add_thread thread st =
     (let next = thread_list (crashInfo st)
      in st\<lparr>records := (case records st thread of
                            None \<Rightarrow> records st
                          | Some t \<Rightarrow> (records st)(thread \<mapsto> t\<lparr>thread_next := next\<rparr>)),
              crashInfo := (crashInfo st)\<lparr>thread_list := thread\<rparr>\<rparr>)"

text \<open>
  The walk of \<^verbatim>\<open>seen_thread\<close>. \<^verbatim>\<open>pid_t tid\<close> is a signed 32-bit integer, compared
  with the 64-bit field after sign extension. The result \<open>None\<close> is a call that does
  not return: the walk never ends (a cyclic list), or it reads through an address that
  holds no record.
\<close>

partial_function (option) seen_thread_walk ::
  "(64 word \<rightharpoonup> thread) \<Rightarrow> 64 word \<Rightarrow> 32 word \<Rightarrow> bool option" where
  "seen_thread_walk h next tid =
     (if next \<noteq> 0 then
        (case h next of
           None \<Rightarrow> None
         | Some pthread \<Rightarrow>
             if thread_tid pthread = scast tid then Some True
             else seen_thread_walk h (thread_next pthread) tid)
      else Some False)"

declare seen_thread_walk.simps [code]

definition seen_thread :: "32 word \<Rightarrow> registry \<Rightarrow> bool option" where
  "seen_thread tid st = seen_thread_walk (records st) (thread_list (crashInfo st)) tid"

subsection \<open>The list a chain of records forms\<close>

text \<open>\<open>chain h p as\<close>: starting at \<open>p\<close>, the records at the addresses \<open>as\<close> are linked
  in this order and the last one ends the list.\<close>

fun chain :: "(64 word \<rightharpoonup> thread) \<Rightarrow> 64 word \<Rightarrow> 64 word list \<Rightarrow> bool" where
  "chain h p [] = (p = 0)"
| "chain h p (a # as) =
     (p = a \<and> a \<noteq> 0 \<and> (case h a of None \<Rightarrow> False | Some t \<Rightarrow> chain h (thread_next t) as))"

definition tids_at :: "(64 word \<rightharpoonup> thread) \<Rightarrow> 64 word list \<Rightarrow> 64 word list" where
  "tids_at h as = map (\<lambda>a. case h a of None \<Rightarrow> 0 | Some t \<Rightarrow> thread_tid t) as"

text \<open>A store for the examples: three records, at three addresses.\<close>

definition example_records :: "64 word \<rightharpoonup> thread" where
  "example_records =
     [0x7000 \<mapsto> \<lparr>thread_next = 0, thread_tid = 1, thread_uctx = 0x7100\<rparr>,
      0x8000 \<mapsto> \<lparr>thread_next = 0, thread_tid = 2, thread_uctx = 0x8100\<rparr>,
      0x9000 \<mapsto> \<lparr>thread_next = 0, thread_tid = 2, thread_uctx = 0x9100\<rparr>]"

definition example_registry :: registry where
  "example_registry =
     \<lparr>records = example_records,
      crashInfo = \<lparr>crashing_thread = 0, signal = 0, fault_address = 0, thread_list = 0\<rparr>\<rparr>"

subsection \<open>What seen_thread finds\<close>

lemma seen_thread_walk_chain:
  "chain h p as \<Longrightarrow> seen_thread_walk h p t = Some (scast t \<in> set (tids_at h as))"
proof (induction as arbitrary: p)
  case Nil
  then show ?case by (subst seen_thread_walk.simps) (simp add: tids_at_def)
next
  case (Cons a as)
  from Cons.prems obtain r where r: "p = a" "a \<noteq> 0" "h a = Some r" "chain h (thread_next r) as"
    by (auto split: option.splits)
  from Cons.IH [OF r(4)]
  have IH: "seen_thread_walk h (thread_next r) t = Some (scast t \<in> set (tids_at h as))" .
  show ?case
    using r(1-3) IH by (subst seen_thread_walk.simps) (auto simp: tids_at_def)
qed

lemma chain_update_other:
  "a \<notin> set as \<Longrightarrow> chain (h(a \<mapsto> r)) p as = chain h p as"
  by (induction as arbitrary: p) (auto split: option.splits)

lemma add_thread_tids: "tids_at (records (add_thread a st)) xs = tids_at (records st) xs"
proof -
  have "(case records (add_thread a st) x of None \<Rightarrow> 0 | Some t \<Rightarrow> thread_tid t) =
        (case records st x of None \<Rightarrow> 0 | Some t \<Rightarrow> thread_tid t)" for x
    by (simp add: add_thread_def Let_def split: option.splits)
  then show ?thesis by (simp add: tids_at_def)
qed

lemma add_thread_present:
  "records st x \<noteq> None \<Longrightarrow> records (add_thread a st) x \<noteq> None"
  by (simp add: add_thread_def Let_def split: option.splits)

lemma add_thread_chain:
  assumes "chain (records st) (thread_list (crashInfo st)) as"
    and "a \<notin> set as" and "a \<noteq> 0" and "records st a \<noteq> None"
  shows "chain (records (add_thread a st)) (thread_list (crashInfo (add_thread a st))) (a # as)"
proof -
  from assms(4) obtain r where r: "records st a = Some r" by auto
  have "chain ((records st)(a \<mapsto> r\<lparr>thread_next := thread_list (crashInfo st)\<rparr>))
          (thread_list (crashInfo st)) as"
    using assms(1,2) by (simp add: chain_update_other)
  then show ?thesis using r assms(3) by (simp add: add_thread_def Let_def)
qed

lemma fold_add_thread_chain:
  "chain (records st) (thread_list (crashInfo st)) as \<Longrightarrow> distinct rs \<Longrightarrow>
   set rs \<inter> set as = {} \<Longrightarrow> 0 \<notin> set rs \<Longrightarrow> list_all (\<lambda>a. records st a \<noteq> None) rs \<Longrightarrow>
   chain (records (fold add_thread rs st)) (thread_list (crashInfo (fold add_thread rs st)))
     (rev rs @ as) \<and>
   tids_at (records (fold add_thread rs st)) xs = tids_at (records st) xs"
proof (induction rs arbitrary: st as)
  case Nil
  then show ?case by simp
next
  case (Cons r rs)
  define st1 where "st1 = add_thread r st"
  have c1: "chain (records st1) (thread_list (crashInfo st1)) (r # as)"
    unfolding st1_def using Cons.prems by (intro add_thread_chain) auto
  have p1: "list_all (\<lambda>a. records st1 a \<noteq> None) rs"
  proof -
    have "records st1 a \<noteq> None" if "a \<in> set rs" for a
    proof -
      from that Cons.prems(5) have "records st a \<noteq> None" by (simp add: list_all_iff)
      then show ?thesis unfolding st1_def by (rule add_thread_present)
    qed
    then show ?thesis by (simp add: list_all_iff)
  qed
  have "chain (records (fold add_thread rs st1)) (thread_list (crashInfo (fold add_thread rs st1)))
     (rev rs @ r # as) \<and>
   tids_at (records (fold add_thread rs st1)) xs = tids_at (records st1) xs"
    using Cons.prems c1 p1 by (intro Cons.IH) auto
  then show ?case by (simp add: st1_def add_thread_tids)
qed

text \<open>
  Claim C9, as amended. A suspension cycle is \<^verbatim>\<open>reset_threads(first)\<close>, where
  \<open>first\<close> is the address of a record that ends a list (the caller's own record
  \<^verbatim>\<open>{ 0, tid, uctx }\<close>), followed by \<^verbatim>\<open>add_thread\<close> of records at distinct non-null
  addresses \<open>rs\<close>. Whatever the registry held before, \<^verbatim>\<open>seen_thread(tid)\<close> then
  returns, and returns true for, and only for, the id of the record that the reset
  installed and the ids of the records added since. So the reset makes it false for
  every id of earlier cycles except the id of the record it installs.
\<close>

theorem seen_thread_current_cycle:
  assumes "distinct (first # rs)" and "0 \<notin> set (first # rs)"
    and "list_all (\<lambda>a. records st a \<noteq> None) (first # rs)"
    and "map_option thread_next (records st first) = Some 0"
  shows "seen_thread t (fold add_thread rs (reset_threads first st)) =
           Some (scast t \<in> set (tids_at (records st) (first # rs)))"
proof -
  define st0 where "st0 = reset_threads first st"
  have rec: "records st0 = records st" and hd: "thread_list (crashInfo st0) = first"
    by (simp_all add: st0_def reset_threads_def)
  from assms(4) obtain r where r: "records st first = Some r" "thread_next r = 0" by auto
  have c0: "chain (records st0) (thread_list (crashInfo st0)) [first]"
    using assms(2) r by (simp add: rec hd)
  have "chain (records (fold add_thread rs st0)) (thread_list (crashInfo (fold add_thread rs st0)))
     (rev rs @ [first]) \<and>
   tids_at (records (fold add_thread rs st0)) (rev rs @ [first]) =
     tids_at (records st0) (rev rs @ [first])"
    using assms(1-3) c0 by (intro fold_add_thread_chain) (auto simp: rec)
  then have "seen_thread t (fold add_thread rs st0) =
      Some (scast t \<in> set (tids_at (records st) (rev rs @ [first])))"
    using seen_thread_walk_chain [of "records (fold add_thread rs st0)" _ "rev rs @ [first]" t]
    by (simp add: seen_thread_def rec)
  moreover have "set (tids_at (records st) (rev rs @ [first])) = set (tids_at (records st) (first # rs))"
    by (auto simp: tids_at_def)
  ultimately show ?thesis by (simp add: st0_def)
qed

text \<open>
  The second cycle of the example: the registry still holds the first cycle (thread 1
  crashed, thread 2 was paused with its record at \<open>0x8000\<close>); now thread 2 resets the
  list to its own record at \<open>0x9000\<close> and thread 1 is paused with the record at
  \<open>0x7000\<close>.
\<close>

theorem seen_thread_current_cycle_witness:
  "distinct [0x9000, 0x7000 :: 64 word] \<and> (0 :: 64 word) \<notin> set [0x9000, 0x7000] \<and>
   list_all (\<lambda>a. records (add_thread 0x8000 (reset_threads 0x7000 example_registry)) a \<noteq> None)
     [0x9000, 0x7000] \<and>
   map_option thread_next
     (records (add_thread 0x8000 (reset_threads 0x7000 example_registry)) 0x9000) = Some 0 \<and>
   seen_thread 1 (fold add_thread [0x7000]
     (reset_threads 0x9000 (add_thread 0x8000 (reset_threads 0x7000 example_registry)))) = Some True \<and>
   seen_thread 2 (fold add_thread [0x7000]
     (reset_threads 0x9000 (add_thread 0x8000 (reset_threads 0x7000 example_registry)))) = Some True \<and>
   seen_thread 3 (fold add_thread [0x7000]
     (reset_threads 0x9000 (add_thread 0x8000 (reset_threads 0x7000 example_registry)))) = Some False"
proof -
  define st where "st = add_thread 0x8000 (reset_threads 0x7000 example_registry)"
  have h: "distinct [0x9000, 0x7000 :: 64 word]" "(0 :: 64 word) \<notin> set [0x9000, 0x7000]"
    "list_all (\<lambda>a. records st a \<noteq> None) [0x9000, 0x7000]"
    "map_option thread_next (records st 0x9000) = Some 0"
    by (simp_all add: st_def add_thread_def reset_threads_def example_registry_def
        example_records_def)
  have t: "tids_at (records st) [0x9000, 0x7000] = [2, 1]"
    by (simp add: st_def tids_at_def add_thread_def reset_threads_def example_registry_def
        example_records_def)
  show ?thesis
    using h seen_thread_current_cycle [OF h, of 1] seen_thread_current_cycle [OF h, of 2]
      seen_thread_current_cycle [OF h, of 3]
    unfolding t st_def [symmetric] by simp
qed

text \<open>
  The claim as it is written fails at the reset of this second cycle: thread id 2 was
  inserted in the earlier cycle, and after \<^verbatim>\<open>reset_threads\<close>, before anything is
  inserted, \<^verbatim>\<open>seen_thread(2)\<close> is true, since the reset installs the record of
  thread 2 as the new list.
\<close>

theorem seen_thread_after_reset_counterexample:
  "seen_thread 2 (add_thread 0x8000 (reset_threads 0x7000 example_registry)) = Some True \<and>
   seen_thread 2
     (reset_threads 0x9000 (add_thread 0x8000 (reset_threads 0x7000 example_registry))) = Some True \<and>
   seen_thread 2
     (reset_threads 0x9000 (add_thread 0x8000 (reset_threads 0x7000 example_registry))) \<noteq> Some False"
  by (simp add: seen_thread_def reset_threads_def add_thread_def example_registry_def
      example_records_def seen_thread_walk.simps)

section \<open>The fatal-signal handler: handle_fatal_signal\<close>

subsection \<open>The code\<close>

text \<open>
  The signal numbers of \<^verbatim>\<open><signal.h>\<close> on Linux (x86-64 and AArch64), and the array
  \<^verbatim>\<open>signalsToHandle\<close>.
\<close>

definition SIGQUIT :: int where "SIGQUIT = 3"
definition SIGILL :: int where "SIGILL = 4"
definition SIGTRAP :: int where "SIGTRAP = 5"
definition SIGABRT :: int where "SIGABRT = 6"
definition SIGBUS :: int where "SIGBUS = 7"
definition SIGFPE :: int where "SIGFPE = 8"
definition SIGSEGV :: int where "SIGSEGV = 11"

definition signalsToHandle :: "int list" where
  "signalsToHandle = [SIGQUIT, SIGABRT, SIGBUS, SIGFPE, SIGILL, SIGSEGV, SIGTRAP]"

text \<open>
  What the handler does to the process, in the order in which it does it: the calls it
  makes and its two groups of assignments.
\<close>

datatype event =
  Suspend_other_threads
| Reset_signal int
| Fill_crash_info
| Memserver_start
| Run_backtracer int
| Resume_other_threads
| Restore_errno

text \<open>
  The callees are not part of the handler. What the handler depends on is given by the
  environment: the thread id \<^verbatim>\<open>gettid()\<close> returns, the descriptor
  \<^verbatim>\<open>memserver_start()\<close> returns, the value each call leaves in \<^verbatim>\<open>errno\<close>, and
  whether a call returns at all (\<^verbatim>\<open>suspend_other_threads\<close> waits for other threads).
\<close>

record handler_env =
  env_gettid :: "64 word"
  env_memserver_fd :: int
  env_errno_after :: "event \<Rightarrow> int"
  env_returns :: "event \<Rightarrow> bool"

text \<open>
  The state of the crashing thread in the handler: \<^verbatim>\<open>errno\<close>, the global
  \<^verbatim>\<open>crashInfo\<close>, what has happened so far, and whether the thread is still running the
  handler (\<open>False\<close> once a call has not returned; nothing happens after that).
\<close>

record handler_state =
  errno :: int
  crash_info :: CrashInfo
  trace :: "event list"
  running :: bool

text \<open>A call of a callee, and an assignment by the handler itself.\<close>

definition call :: "handler_env \<Rightarrow> event \<Rightarrow> handler_state \<Rightarrow> handler_state" where
  "call env ev st =
     (if \<not> running st then st
      else if env_returns env ev
      then st\<lparr>errno := env_errno_after env ev, trace := trace st @ [ev]\<rparr>
      else st\<lparr>trace := trace st @ [ev], running := False\<rparr>)"

definition assign :: "event \<Rightarrow> (handler_state \<Rightarrow> handler_state) \<Rightarrow> handler_state \<Rightarrow> handler_state" where
  "assign ev f st = (if \<not> running st then st else (f st)\<lparr>trace := trace st @ [ev]\<rparr>)"

text \<open>\<^verbatim>\<open>reset_signal(signum)\<close>: one \<^verbatim>\<open>sigaction\<close> call that installs \<^verbatim>\<open>SIG_DFL\<close>.\<close>

definition reset_signal :: "handler_env \<Rightarrow> int \<Rightarrow> handler_state \<Rightarrow> handler_state" where
  "reset_signal env signum st = call env (Reset_signal signum) st"

text \<open>
  \<^verbatim>\<open>handle_fatal_signal(signum, pinfo, uctx)\<close>, with \<^verbatim>\<open>MEMSERVER_USE_PROCESS\<close> 0 as
  the file defines it; \<open>si_addr\<close> is \<^verbatim>\<open>pinfo->si_addr\<close>.
\<close>

definition handle_fatal_signal ::
  "handler_env \<Rightarrow> int \<Rightarrow> 64 word \<Rightarrow> 64 word \<Rightarrow> handler_state \<Rightarrow> handler_state" where
  "handle_fatal_signal env signum si_addr uctx st0 =
     (let old_err = errno st0;
          self = \<lparr>thread_next = 0, thread_tid = env_gettid env, thread_uctx = uctx\<rparr>;
          st1 = call env Suspend_other_threads st0;
          st2 = fold (reset_signal env) signalsToHandle st1;
          st3 = assign Fill_crash_info
                  (\<lambda>st. st\<lparr>crash_info := (crash_info st)
                     \<lparr>crashing_thread := thread_tid self,
                      signal := word_of_int signum,
                      fault_address := si_addr\<rparr>\<rparr>) st2;
          st4 = call env Memserver_start st3;
          fd = env_memserver_fd env;
          st5 = call env (Run_backtracer fd) st4;
          st6 = reset_signal env SIGSEGV st5;
          st7 = reset_signal env SIGBUS st6;
          st8 = call env Resume_other_threads st7
      in assign Restore_errno (\<lambda>st. st\<lparr>errno := old_err\<rparr>) st8)"

subsection \<open>Order of events\<close>

text \<open>\<open>precedes a b tr\<close>: in \<open>tr\<close>, no \<open>b\<close> happens before the first \<open>a\<close> has
  happened (and none at all if \<open>a\<close> never happens).\<close>

definition precedes :: "'a \<Rightarrow> 'a \<Rightarrow> 'a list \<Rightarrow> bool" where
  "precedes a b tr = (b \<notin> set (takeWhile (\<lambda>x. x \<noteq> a) tr))"

text \<open>Everything the handler does when every call returns.\<close>

definition full_trace :: "int \<Rightarrow> event list" where
  "full_trace fd =
     [Suspend_other_threads,
      Reset_signal SIGQUIT, Reset_signal SIGABRT, Reset_signal SIGBUS, Reset_signal SIGFPE,
      Reset_signal SIGILL, Reset_signal SIGSEGV, Reset_signal SIGTRAP,
      Fill_crash_info, Memserver_start, Run_backtracer fd,
      Reset_signal SIGSEGV, Reset_signal SIGBUS, Resume_other_threads, Restore_errno]"

definition example_env :: handler_env where
  "example_env =
     \<lparr>env_gettid = 4242, env_memserver_fd = 5,
      env_errno_after = (\<lambda>ev. if ev = Run_backtracer 5 then 4 else 11),
      env_returns = (\<lambda>_. True)\<rparr>"

definition example_state :: handler_state where
  "example_state =
     \<lparr>errno = 2,
      crash_info = \<lparr>crashing_thread = 0, signal = 0, fault_address = 0, thread_list = 0\<rparr>,
      trace = [], running = True\<rparr>"

lemma precedes_take: "precedes a b tr \<Longrightarrow> precedes a b (take k tr)"
proof -
  have "set (takeWhile P (take k tr)) \<subseteq> set (takeWhile P tr)" for P :: "'a \<Rightarrow> bool"
  proof (induction tr arbitrary: k)
    case Nil
    then show ?case by simp
  next
    case (Cons x xs)
    then show ?case by (cases k) auto
  qed
  then show "precedes a b tr \<Longrightarrow> precedes a b (take k tr)"
    unfolding precedes_def by blast
qed

text \<open>\<open>progress F n st\<close>: the thread has done the first \<open>n\<close> events of \<open>F\<close>, or it
  is stuck in one of them.\<close>

definition progress :: "event list \<Rightarrow> nat \<Rightarrow> handler_state \<Rightarrow> bool" where
  "progress F n st =
     (if running st then trace st = take n F else (\<exists>k\<le>n. trace st = take k F))"

lemma progress_call:
  assumes "progress F n st" and "n < length F" and "F ! n = ev" and m: "m = Suc n"
  shows "progress F m (call env ev st)"
proof (cases "running st")
  case True
  with assms(1) have tr: "trace st = take n F" by (simp add: progress_def)
  have "take (Suc n) F = take n F @ [ev]"
    using assms(2,3) by (simp add: take_Suc_conv_app_nth)
  with tr True show ?thesis
    by (auto simp: progress_def call_def m intro: exI [of _ "Suc n"])
next
  case False
  with assms(1) obtain k where "k \<le> n" "trace st = take k F" by (auto simp: progress_def)
  then have "\<exists>k\<le>Suc n. trace st = take k F" by (intro exI [of _ k]) simp
  with False show ?thesis by (simp add: progress_def call_def m)
qed

lemma progress_assign:
  assumes "progress F n st" and "n < length F" and "F ! n = ev"
    and "\<And>s. trace (f s) = trace s" and "\<And>s. running (f s) = running s" and m: "m = Suc n"
  shows "progress F m (assign ev f st)"
proof (cases "running st")
  case True
  with assms(1) have tr: "trace st = take n F" by (simp add: progress_def)
  have "take (Suc n) F = take n F @ [ev]"
    using assms(2,3) by (simp add: take_Suc_conv_app_nth)
  with tr True show ?thesis
    by (simp add: progress_def assign_def assms(5) m)
next
  case False
  with assms(1) obtain k where "k \<le> n" "trace st = take k F" by (auto simp: progress_def)
  then have "\<exists>k\<le>Suc n. trace st = take k F" by (intro exI [of _ k]) simp
  with False show ?thesis by (simp add: progress_def assign_def m)
qed

lemma handle_fatal_signal_progress:
  assumes "running st" and "trace st = []"
  shows "progress (full_trace (env_memserver_fd env)) 15
           (handle_fatal_signal env signum si_addr uctx st)"
proof -
  define F where "F = full_trace (env_memserver_fd env)"
  define self where "self = \<lparr>thread_next = 0, thread_tid = env_gettid env, thread_uctx = uctx\<rparr>"
  define fill where "fill = (\<lambda>st :: handler_state. st\<lparr>crash_info := (crash_info st)
                     \<lparr>crashing_thread := thread_tid self,
                      signal := word_of_int signum,
                      fault_address := si_addr\<rparr>\<rparr>)"
  define restore where "restore = (\<lambda>s :: handler_state. s\<lparr>errno := errno st\<rparr>)"
  define s1 where "s1 = call env Suspend_other_threads st"
  define s2 where "s2 = reset_signal env SIGQUIT s1"
  define s3 where "s3 = reset_signal env SIGABRT s2"
  define s4 where "s4 = reset_signal env SIGBUS s3"
  define s5 where "s5 = reset_signal env SIGFPE s4"
  define s6 where "s6 = reset_signal env SIGILL s5"
  define s7 where "s7 = reset_signal env SIGSEGV s6"
  define s8 where "s8 = reset_signal env SIGTRAP s7"
  define s9 where "s9 = assign Fill_crash_info fill s8"
  define s10 where "s10 = call env Memserver_start s9"
  define s11 where "s11 = call env (Run_backtracer (env_memserver_fd env)) s10"
  define s12 where "s12 = reset_signal env SIGSEGV s11"
  define s13 where "s13 = reset_signal env SIGBUS s12"
  define s14 where "s14 = call env Resume_other_threads s13"
  define s15 where "s15 = assign Restore_errno restore s14"
  have run: "handle_fatal_signal env signum si_addr uctx st = s15"
    by (simp add: handle_fatal_signal_def Let_def signalsToHandle_def s15_def s14_def s13_def
        s12_def s11_def s10_def s9_def s8_def s7_def s6_def s5_def s4_def s3_def s2_def s1_def
        restore_def fill_def self_def)
  have len: "length F = 15" by (simp add: F_def full_trace_def)
  have p0: "progress F 0 st" using assms by (simp add: progress_def)
  have p1: "progress F 1 s1"
    unfolding s1_def reset_signal_def
    by (rule progress_call [OF p0]) (simp_all add: F_def full_trace_def)
  have p2: "progress F 2 s2"
    unfolding s2_def reset_signal_def
    by (rule progress_call [OF p1]) (simp_all add: F_def full_trace_def)
  have p3: "progress F 3 s3"
    unfolding s3_def reset_signal_def
    by (rule progress_call [OF p2]) (simp_all add: F_def full_trace_def)
  have p4: "progress F 4 s4"
    unfolding s4_def reset_signal_def
    by (rule progress_call [OF p3]) (simp_all add: F_def full_trace_def)
  have p5: "progress F 5 s5"
    unfolding s5_def reset_signal_def
    by (rule progress_call [OF p4]) (simp_all add: F_def full_trace_def)
  have p6: "progress F 6 s6"
    unfolding s6_def reset_signal_def
    by (rule progress_call [OF p5]) (simp_all add: F_def full_trace_def)
  have p7: "progress F 7 s7"
    unfolding s7_def reset_signal_def
    by (rule progress_call [OF p6]) (simp_all add: F_def full_trace_def)
  have p8: "progress F 8 s8"
    unfolding s8_def reset_signal_def
    by (rule progress_call [OF p7]) (simp_all add: F_def full_trace_def)
  have p9: "progress F 9 s9"
    unfolding s9_def
    by (rule progress_assign [OF p8]) (simp_all add: F_def full_trace_def fill_def)
  have p10: "progress F 10 s10"
    unfolding s10_def reset_signal_def
    by (rule progress_call [OF p9]) (simp_all add: F_def full_trace_def)
  have p11: "progress F 11 s11"
    unfolding s11_def reset_signal_def
    by (rule progress_call [OF p10]) (simp_all add: F_def full_trace_def)
  have p12: "progress F 12 s12"
    unfolding s12_def reset_signal_def
    by (rule progress_call [OF p11]) (simp_all add: F_def full_trace_def)
  have p13: "progress F 13 s13"
    unfolding s13_def reset_signal_def
    by (rule progress_call [OF p12]) (simp_all add: F_def full_trace_def)
  have p14: "progress F 14 s14"
    unfolding s14_def reset_signal_def
    by (rule progress_call [OF p13]) (simp_all add: F_def full_trace_def)
  have p15: "progress F 15 s15"
    unfolding s15_def
    by (rule progress_assign [OF p14]) (simp_all add: F_def full_trace_def restore_def)
  show ?thesis using p15 by (simp add: run F_def)
qed

lemma handle_fatal_signal_errno:
  "running (handle_fatal_signal env signum si_addr uctx st) \<Longrightarrow>
   errno (handle_fatal_signal env signum si_addr uctx st) = errno st"
  by (simp add: handle_fatal_signal_def Let_def assign_def split: if_splits)

lemma full_trace_order:
  "list_all (\<lambda>s. precedes Suspend_other_threads (Reset_signal s) (full_trace fd)) signalsToHandle"
  "precedes Suspend_other_threads Fill_crash_info (full_trace fd)"
  "precedes Suspend_other_threads Memserver_start (full_trace fd)"
  "list_all (\<lambda>s. precedes (Reset_signal s) Memserver_start (full_trace fd) \<and>
                 precedes (Reset_signal s) (Run_backtracer fd) (full_trace fd)) signalsToHandle"
  "precedes (Run_backtracer fd) Resume_other_threads (full_trace fd)"
  by (simp_all add: precedes_def full_trace_def signalsToHandle_def SIGQUIT_def SIGABRT_def
      SIGBUS_def SIGFPE_def SIGILL_def SIGSEGV_def SIGTRAP_def)

text \<open>
  Claim C6. In every execution of \<^verbatim>\<open>handle_fatal_signal\<close>, complete or stuck in a
  call that does not return, and whatever the callees leave in \<^verbatim>\<open>errno\<close>: the
  suspension of the other threads comes before every reset of a fatal signal, before
  the crash information is filled in and before the memory server is started; the
  reset of every fatal signal comes before the start of the memory server and before
  the run of the backtracer; the other threads are resumed only after the backtracer
  has run; and when the handler returns, it has done all of this and \<^verbatim>\<open>errno\<close> has
  the value it had on entry.
\<close>

theorem handle_fatal_signal_ordering:
  assumes "running st" and "trace st = []"
  shows "let st' = handle_fatal_signal env signum si_addr uctx st;
             tr = trace st'; fd = env_memserver_fd env
         in list_all (\<lambda>s. precedes Suspend_other_threads (Reset_signal s) tr) signalsToHandle \<and>
            precedes Suspend_other_threads Fill_crash_info tr \<and>
            precedes Suspend_other_threads Memserver_start tr \<and>
            list_all (\<lambda>s. precedes (Reset_signal s) Memserver_start tr \<and>
                           precedes (Reset_signal s) (Run_backtracer fd) tr) signalsToHandle \<and>
            precedes (Run_backtracer fd) Resume_other_threads tr \<and>
            (running st' \<longrightarrow> tr = full_trace fd \<and> errno st' = errno st)"
proof -
  define st' where "st' = handle_fatal_signal env signum si_addr uctx st"
  define fd where "fd = env_memserver_fd env"
  have p: "progress (full_trace fd) 15 st'"
    unfolding st'_def fd_def by (rule handle_fatal_signal_progress [OF assms])
  then obtain k where k: "trace st' = take k (full_trace fd)"
    by (auto simp: progress_def split: if_splits)
  have full: "running st' \<longrightarrow> trace st' = full_trace fd"
    using p by (simp add: progress_def full_trace_def)
  have err: "running st' \<longrightarrow> errno st' = errno st"
    unfolding st'_def using handle_fatal_signal_errno by blast
  have o1: "list_all (\<lambda>s. precedes Suspend_other_threads (Reset_signal s) (trace st')) signalsToHandle"
    using full_trace_order(1) [of fd] unfolding k list_all_iff by (blast intro: precedes_take)
  have o2: "precedes Suspend_other_threads Fill_crash_info (trace st')"
    unfolding k by (rule precedes_take [OF full_trace_order(2)])
  have o3: "precedes Suspend_other_threads Memserver_start (trace st')"
    unfolding k by (rule precedes_take [OF full_trace_order(3)])
  have o4: "list_all (\<lambda>s. precedes (Reset_signal s) Memserver_start (trace st') \<and>
                 precedes (Reset_signal s) (Run_backtracer fd) (trace st')) signalsToHandle"
    using full_trace_order(4) [of fd] unfolding k list_all_iff by (blast intro: precedes_take)
  have o5: "precedes (Run_backtracer fd) Resume_other_threads (trace st')"
    unfolding k by (rule precedes_take [OF full_trace_order(5)])
  show ?thesis
    using o1 o2 o3 o4 o5 full err
    by (simp add: Let_def st'_def [symmetric] fd_def [symmetric])
qed

text \<open>
  A handler in which every call returns (so the hypothesis of the last part holds), and
  the callees leave 11 or 4 in \<^verbatim>\<open>errno\<close>, which was 2 on entry.
\<close>

lemma call_running: "env_returns env ev \<Longrightarrow> running (call env ev st) = running st"
  by (simp add: call_def)

lemma assign_running:
  "(\<And>s. running (f s) = running s) \<Longrightarrow> running (assign ev f st) = running st"
  by (simp add: assign_def)

lemma handle_fatal_signal_returns:
  assumes "\<And>ev. env_returns env ev"
  shows "running (handle_fatal_signal env signum si_addr uctx st) = running st"
  by (simp add: handle_fatal_signal_def Let_def signalsToHandle_def reset_signal_def
      call_running [OF assms] assign_running)

theorem handle_fatal_signal_ordering_witness:
  "running example_state \<and> trace example_state = [] \<and>
   running (handle_fatal_signal example_env SIGSEGV 0x10 0x7f00 example_state) \<and>
   trace (handle_fatal_signal example_env SIGSEGV 0x10 0x7f00 example_state) = full_trace 5 \<and>
   errno (handle_fatal_signal example_env SIGSEGV 0x10 0x7f00 example_state) = errno example_state \<and>
   list_all (\<lambda>s. precedes Suspend_other_threads (Reset_signal s) (full_trace 5)) signalsToHandle \<and>
   precedes Suspend_other_threads Fill_crash_info (full_trace 5) \<and>
   precedes Suspend_other_threads Memserver_start (full_trace 5) \<and>
   list_all (\<lambda>s. precedes (Reset_signal s) Memserver_start (full_trace 5) \<and>
                  precedes (Reset_signal s) (Run_backtracer 5) (full_trace 5)) signalsToHandle \<and>
   precedes (Run_backtracer 5) Resume_other_threads (full_trace 5)"
proof -
  have h: "running example_state" "trace example_state = []"
    by (simp_all add: example_state_def)
  have fd: "env_memserver_fd example_env = 5" by (simp add: example_env_def)
  have "\<And>ev. env_returns example_env ev" by (simp add: example_env_def)
  then have r: "running (handle_fatal_signal example_env SIGSEGV 0x10 0x7f00 example_state)"
    using h(1) by (simp add: handle_fatal_signal_returns)
  note t = handle_fatal_signal_ordering [OF h, of example_env SIGSEGV "0x10" "0x7f00"]
  have tr: "trace (handle_fatal_signal example_env SIGSEGV 0x10 0x7f00 example_state) = full_trace 5"
    and er: "errno (handle_fatal_signal example_env SIGSEGV 0x10 0x7f00 example_state) =
      errno example_state"
    using t r by (simp_all add: Let_def fd)
  show ?thesis
    using h r t er unfolding Let_def fd tr by simp
qed

section \<open>The memory server\<close>

subsection \<open>The channel and its system calls\<close>

text \<open>
  The server talks to the backtracer over one end of a stream socket pair. The model of
  the descriptor is what the kernel will do on it. \<open>incoming\<close> lists what successive
  \<^verbatim>\<open>read\<close> calls find: bytes that have arrived, or a failure with its \<^verbatim>\<open>errno\<close>; a
  \<^verbatim>\<open>read\<close> takes at most the bytes it asks for and leaves the rest. When the list is
  used up the peer has closed the stream, and every \<^verbatim>\<open>read\<close> returns 0. \<open>accepting\<close>
  lists how successive \<^verbatim>\<open>write\<close> calls go: how many bytes the kernel takes at most,
  or a failure; when the list is used up every \<^verbatim>\<open>write\<close> takes all its bytes.
  \<open>sent\<close> is what has been written so far.
\<close>

datatype syserr = EINTR | EAGAIN | ETIMEDOUT | E_other nat

datatype incoming_event = Arrives "byte list" | Read_fails syserr

datatype accepting_event = Takes nat | Write_fails syserr

record channel =
  incoming :: "incoming_event list"
  accepting :: "accepting_event list"
  sent :: "byte list"
  closed :: bool

text \<open>A system call returns \<open>Inl e\<close> for \<open>-1\<close> with \<^verbatim>\<open>errno\<close> \<open>e\<close>, and \<open>Inr\<close>
  of its result otherwise; \<^verbatim>\<open>read\<close> returns the bytes it has put at the start of the
  buffer, their number being its return value.\<close>

definition sys_read :: "nat \<Rightarrow> channel \<Rightarrow> (syserr + byte list) \<times> channel" where
  "sys_read len c =
     (case incoming c of
        [] \<Rightarrow> (Inr [], c)
      | Read_fails e # rest \<Rightarrow> (Inl e, c\<lparr>incoming := rest\<rparr>)
      | Arrives bs # rest \<Rightarrow>
          if length bs \<le> len then (Inr bs, c\<lparr>incoming := rest\<rparr>)
          else (Inr (take len bs), c\<lparr>incoming := Arrives (drop len bs) # rest\<rparr>))"

definition sys_write :: "byte list \<Rightarrow> channel \<Rightarrow> (syserr + nat) \<times> channel" where
  "sys_write bs c =
     (case accepting c of
        [] \<Rightarrow> (Inr (length bs), c\<lparr>sent := sent c @ bs\<rparr>)
      | Write_fails e # rest \<Rightarrow> (Inl e, c\<lparr>accepting := rest\<rparr>)
      | Takes n # rest \<Rightarrow>
          (Inr (min n (length bs)), c\<lparr>accepting := rest, sent := sent c @ take n bs\<rparr>))"

text \<open>\<^verbatim>\<open>do { ret = read(fd, buf, len); } while (ret < 0 && errno == EINTR);\<close>\<close>

function read_retry :: "nat \<Rightarrow> channel \<Rightarrow> (syserr + byte list) \<times> channel" where
  "read_retry len c =
     (let r = sys_read len c
      in if fst r = Inl EINTR then read_retry len (snd r) else r)"
  by pat_completeness auto
termination
proof (relation "measure (\<lambda>(len, c). length (incoming c))")
  show "wf (measure (\<lambda>(len, c). length (incoming c)))" by simp
next
  fix len :: nat and c :: channel and r
  assume "r = sys_read len c" and "fst r = Inl EINTR"
  then show "((len, snd r), (len, c)) \<in> measure (\<lambda>(len, c). length (incoming c))"
    by (auto simp: sys_read_def split: list.splits incoming_event.splits if_splits)
qed

declare read_retry.simps [simp del]

text \<open>\<^verbatim>\<open>do { ret = write(fd, buf, len); } while (ret < 0 && errno == EINTR);\<close>
  The call writes the first \<open>len\<close> bytes of \<open>buf\<close>.\<close>

function write_retry :: "byte list \<Rightarrow> nat \<Rightarrow> channel \<Rightarrow> (syserr + nat) \<times> channel" where
  "write_retry buf len c =
     (let r = sys_write (take len buf) c
      in if fst r = Inl EINTR then write_retry buf len (snd r) else r)"
  by pat_completeness auto
termination
proof (relation "measure (\<lambda>(buf, len, c). length (accepting c))")
  show "wf (measure (\<lambda>(buf, len, c). length (accepting c)))" by simp
next
  fix buf :: "byte list" and len :: nat and c :: channel and r
  assume "r = sys_write (take len buf) c" and "fst r = Inl EINTR"
  then show "((buf, len, snd r), (buf, len, c)) \<in> measure (\<lambda>(buf, len, c). length (accepting c))"
    by (auto simp: sys_write_def split: list.splits accepting_event.splits if_splits)
qed

declare write_retry.simps [simp del]

subsection \<open>safe_read and safe_write\<close>

text \<open>
  The loop of \<^verbatim>\<open>safe_read\<close>. \<open>ptr\<close> and \<open>endp\<close> are the offsets of the pointers
  \<^verbatim>\<open>ptr\<close> and \<^verbatim>\<open>end\<close> from \<^verbatim>\<open>buf\<close>. Every \<^verbatim>\<open>read\<close> is given \<^verbatim>\<open>buf\<close> itself,
  so it stores its bytes at the start of the buffer. The result is the return value
  and the buffer; \<open>None\<close> is a call that never returns.
\<close>

partial_function (option) safe_read_loop ::
  "byte list \<Rightarrow> nat \<Rightarrow> nat \<Rightarrow> nat \<Rightarrow> int \<Rightarrow> channel \<Rightarrow> ((int \<times> byte list) \<times> channel) option" where
  "safe_read_loop buf ptr endp len total' c =
     (if ptr < endp then
        (case read_retry len c of
           (Inl e, c') \<Rightarrow> Some ((-1, buf), c')
         | (Inr bs, c') \<Rightarrow>
             safe_read_loop (bs @ drop (length bs) buf) (ptr + length bs) endp
               (len - length bs) (total' + int (length bs)) c')
      else Some ((total', buf), c))"

declare safe_read_loop.simps [code]

definition safe_read :: "byte list \<Rightarrow> nat \<Rightarrow> channel \<Rightarrow> ((int \<times> byte list) \<times> channel) option" where
  "safe_read buf len c = safe_read_loop buf 0 len len 0 c"

partial_function (option) safe_write_loop ::
  "byte list \<Rightarrow> nat \<Rightarrow> nat \<Rightarrow> nat \<Rightarrow> int \<Rightarrow> channel \<Rightarrow> (int \<times> channel) option" where
  "safe_write_loop buf ptr endp len total' c =
     (if ptr < endp then
        (case write_retry buf len c of
           (Inl e, c') \<Rightarrow> Some (-1, c')
         | (Inr n, c') \<Rightarrow>
             safe_write_loop buf (ptr + n) endp (len - n) (total' + int n) c')
      else Some (total', c))"

declare safe_write_loop.simps [code]

definition safe_write :: "byte list \<Rightarrow> nat \<Rightarrow> channel \<Rightarrow> (int \<times> channel) option" where
  "safe_write buf len c = safe_write_loop buf 0 len len 0 c"

subsection \<open>Reading the crashed process's memory\<close>

text \<open>
  The address space as the server sees it: the byte at an address, or \<open>None\<close> where
  nothing is mapped. Addresses are 64-bit and wrap around.
\<close>

definition readable :: "(64 word \<rightharpoonup> byte) \<Rightarrow> 64 word \<Rightarrow> nat \<Rightarrow> bool" where
  "readable m a n = list_all (\<lambda>i. m (a + of_nat i) \<noteq> None) [0..<n]"

definition bytes_at :: "(64 word \<rightharpoonup> byte) \<Rightarrow> 64 word \<Rightarrow> nat \<Rightarrow> byte list" where
  "bytes_at m a n = map (\<lambda>i. case m (a + of_nat i) of None \<Rightarrow> 0 | Some b \<Rightarrow> b) [0..<n]"

text \<open>
  How many bytes from \<open>a\<close> on are readable before the first one that is not. The map
  tells readability byte by byte; in a process it is the same for all bytes of a page,
  and then this prefix ends where the first unreadable page begins.
\<close>

definition readable_prefix :: "(64 word \<rightharpoonup> byte) \<Rightarrow> 64 word \<Rightarrow> nat \<Rightarrow> nat" where
  "readable_prefix m a n = length (takeWhile (\<lambda>i. m (a + of_nat i) \<noteq> None) [0..<n])"

text \<open>
  The globals of the server, the stack slot of \<^verbatim>\<open>struct memserver_req req\<close> (which
  keeps what the last request left there) and the channel behind \<^verbatim>\<open>memserver_fd\<close>.
  The field \<open>memcpy_stored\<close> is no variable of the program: it is what the C
  library's \<^verbatim>\<open>memcpy\<close> has done when it faults. Which bytes of the destination a
  copy has written before it touches the unreadable source byte depends on the library
  (a copy that loads everything before it stores has written none, a copy that runs
  forward byte by byte has written the readable prefix), so
  \<open>memcpy_stored from len i\<close> tells whether the faulting copy of \<open>len\<close> bytes from
  \<open>from\<close> has stored byte \<open>i\<close>.
\<close>

record memserver =
  memory :: "64 word \<rightharpoonup> byte"
  memcpy_stored :: "64 word \<Rightarrow> nat \<Rightarrow> nat \<Rightarrow> bool"
  memserver_buffer :: "byte list"
  memserver_has_ptrace :: bool
  req :: "byte list"
  chan :: channel

text \<open>
  The destination after a \<^verbatim>\<open>memcpy(to, from, len)\<close> that faulted: a byte that the copy
  has stored is the byte of the source, every other byte is as it was.
\<close>

definition faulted_memcpy ::
  "(nat \<Rightarrow> bool) \<Rightarrow> (64 word \<rightharpoonup> byte) \<Rightarrow> byte list \<Rightarrow> 64 word \<Rightarrow> nat \<Rightarrow> byte list" where
  "faulted_memcpy stored m to from len =
     map (\<lambda>(i, old). if stored i
                     then (case m (from + of_nat i) of None \<Rightarrow> old | Some b \<Rightarrow> b)
                     else old)
       (zip [0..<len] (take len to)) @
     drop len to"

text \<open>
  \<^verbatim>\<open>memserver_read(memserver_buffer, from, len)\<close>: the return value and the new state.
  With the capability, \<^verbatim>\<open>process_vm_readv\<close> transfers the bytes up to the first page
  it cannot read and returns their number; it returns \<open>-1\<close> when it could transfer
  none of the bytes asked for. Without the capability, \<^verbatim>\<open>memcpy\<close> runs under
  \<^verbatim>\<open>sigsetjmp\<close>: when it completes the function returns \<open>len\<close>; when it faults,
  \<^verbatim>\<open>memserver_fault\<close> jumps back, \<^verbatim>\<open>sigsetjmp\<close> returns non-zero and the function
  returns the constant of its \<^verbatim>\<open>else\<close> branch, 1.
\<close>

definition memserver_read :: "memserver \<Rightarrow> 64 word \<Rightarrow> nat \<Rightarrow> int \<times> memserver" where
  "memserver_read st from len =
     (if memserver_has_ptrace st then
        (let n = readable_prefix (memory st) from len in
         if n = 0 \<and> len \<noteq> 0 then (-1, st)
         else (int n,
               st\<lparr>memserver_buffer :=
                    bytes_at (memory st) from n @ drop n (memserver_buffer st)\<rparr>))
      else
        (if readable (memory st) from len
         then (int len,
               st\<lparr>memserver_buffer :=
                    bytes_at (memory st) from len @ drop len (memserver_buffer st)\<rparr>)
         else (1,
               st\<lparr>memserver_buffer :=
                    faulted_memcpy (memcpy_stored st from len) (memory st) (memserver_buffer st)
                      from len\<rparr>)))"

subsection \<open>The wire records\<close>

text \<open>
  Modelled from the spec: \<^verbatim>\<open>struct memserver_req\<close> and \<^verbatim>\<open>struct memserver_resp\<close> are
  declared in \<^verbatim>\<open>swift/Runtime/Backtrace.h\<close>, which is not among the sources. By the
  spec a request is \<open>{address: u64, length: u64}\<close> and a response
  \<open>{address: u64, length: i64}\<close>, 16 bytes each in host byte order, which is
  little-endian on the Linux targets.
\<close>

definition store_u64 :: "64 word \<Rightarrow> byte list" where
  "store_u64 w = map (\<lambda>i. ucast (drop_bit (8 * i) w)) [0..<8]"

definition load_u64 :: "byte list \<Rightarrow> 64 word" where
  "load_u64 bs = foldr (\<lambda>b w. ucast b OR push_bit 8 w) (take 8 bs) 0"

text \<open>A response record with the \<^verbatim>\<open>ssize_t\<close> value \<open>len\<close> in its \<^verbatim>\<open>int64_t\<close> field.\<close>

definition memserver_resp :: "64 word \<Rightarrow> int \<Rightarrow> byte list" where
  "memserver_resp addr len = store_u64 addr @ store_u64 (word_of_int len)"

definition resp_len :: "byte list \<Rightarrow> int" where
  "resp_len hdr = sint (load_u64 (drop 8 hdr))"

subsection \<open>The protocol loop\<close>

text \<open>
  The inner loop \<^verbatim>\<open>while (bytes) { ... }\<close> of \<^verbatim>\<open>memserver_entry\<close>. The result is
  \<open>True\<close> when the loop ends or is left by \<^verbatim>\<open>break\<close>, so that the server goes on to
  read the next request, and \<open>False\<close> for \<^verbatim>\<open>goto fail\<close>.
\<close>

partial_function (option) serve_request ::
  "64 word \<Rightarrow> 64 word \<Rightarrow> memserver \<Rightarrow> (bool \<times> memserver) option" where
  "serve_request addr bytes st =
     (if bytes \<noteq> 0 then
        (let todo = (if bytes < 4096 then bytes else 4096);
             r = memserver_read st addr (unat todo);
             ret = fst r;
             st1 = snd r;
             resp = memserver_resp addr ret
         in do {
              (w, c1) \<leftarrow> safe_write resp 16 (chan st1);
              if w \<noteq> 16 then Some (False, st1\<lparr>chan := c1\<rparr>)
              else if ret < 0 then Some (True, st1\<lparr>chan := c1\<rparr>)
              else do {
                (w2, c2) \<leftarrow> safe_write (memserver_buffer st1) (nat ret) c1;
                if w2 \<noteq> ret then Some (False, st1\<lparr>chan := c2\<rparr>)
                else serve_request (addr + word_of_int ret) (bytes - word_of_int ret)
                       (st1\<lparr>chan := c2\<rparr>)
              }
            })
      else Some (True, st))"

declare serve_request.simps [code]

text \<open>
  The outer loop \<^verbatim>\<open>for (;;) { ... }\<close> with what follows it: \<^verbatim>\<open>result = 0\<close> after a
  \<^verbatim>\<open>break\<close>, \<^verbatim>\<open>result\<close> still 1 after \<^verbatim>\<open>goto fail\<close>, then \<^verbatim>\<open>close(fd)\<close> and the
  return of \<^verbatim>\<open>result\<close>.
\<close>

definition close_fd :: "memserver \<Rightarrow> memserver" where
  "close_fd st = st\<lparr>chan := (chan st)\<lparr>closed := True\<rparr>\<rparr>"

partial_function (option) memserver_loop :: "memserver \<Rightarrow> (int \<times> memserver) option" where
  "memserver_loop st =
     do {
       ((ret, rq), c) \<leftarrow> safe_read (req st) 16 (chan st);
       if ret \<noteq> 16 then Some (0, close_fd (st\<lparr>req := rq, chan := c\<rparr>))
       else do {
         (ok, st') \<leftarrow> serve_request (load_u64 rq) (load_u64 (drop 8 rq)) (st\<lparr>req := rq, chan := c\<rparr>);
         if ok then memserver_loop st' else Some (1, close_fd st')
       }
     }"

declare memserver_loop.simps [code]

text \<open>
  \<^verbatim>\<open>memserver_entry\<close>: \<open>capbset\<close> is what \<^verbatim>\<open>prctl(PR_CAPBSET_READ, CAP_SYS_PTRACE)\<close>
  returns. Without the capability the function installs \<^verbatim>\<open>memserver_fault\<close> for
  \<^verbatim>\<open>SIGSEGV\<close> and \<^verbatim>\<open>SIGBUS\<close>, which is what makes a faulting copy return.
\<close>

definition memserver_entry :: "int \<Rightarrow> memserver \<Rightarrow> (int \<times> memserver) option" where
  "memserver_entry capbset st = memserver_loop (st\<lparr>memserver_has_ptrace := (capbset \<noteq> 0)\<rparr>)"

text \<open>
  States and memories for the examples. Their \<^verbatim>\<open>memcpy\<close> has stored nothing when it
  faults.
\<close>

definition idle_channel :: channel where
  "idle_channel = \<lparr>incoming = [], accepting = [], sent = [], closed = False\<rparr>"

definition nothing_mapped :: "64 word \<rightharpoonup> byte" where
  "nothing_mapped = (\<lambda>a. None)"

definition all_mapped :: "64 word \<rightharpoonup> byte" where
  "all_mapped = (\<lambda>a. Some (ucast a))"

text \<open>A memory of which the page before \<open>0x2000\<close> is readable and nothing else.\<close>

definition page_mapped :: "64 word \<rightharpoonup> byte" where
  "page_mapped = (\<lambda>a. if 0x1000 \<le> a \<and> a < 0x2000 then Some (ucast a) else None)"

definition example_server :: "(64 word \<rightharpoonup> byte) \<Rightarrow> bool \<Rightarrow> memserver" where
  "example_server m cap =
     \<lparr>memory = m, memcpy_stored = (\<lambda>from len i. False),
      memserver_buffer = replicate 4096 0, memserver_has_ptrace = cap,
      req = replicate 16 0, chan = idle_channel\<rparr>"

subsection \<open>What a request is answered with\<close>

text \<open>
  A response on the wire is a frame: the address and the length field of the header,
  and the payload that follows. A frame is well formed when a non-negative length field
  is followed by exactly that many bytes and a negative one by none.
\<close>

type_synonym frame = "64 word \<times> int \<times> byte list"

definition wire :: "frame \<Rightarrow> byte list" where
  "wire f = (case f of (a, l, p) \<Rightarrow> memserver_resp a l @ p)"

definition well_framed :: "frame \<Rightarrow> bool" where
  "well_framed f = (case f of (a, l, p) \<Rightarrow> if l < 0 then p = [] else length p = nat l)"

text \<open>
  The bytes as the peer reads them, in the words of the specification: a response
  header, and after a header whose length field is not negative exactly that many bytes
  of payload. The result is \<open>None\<close> when the bytes end inside a record.
\<close>

function read_frames :: "byte list \<Rightarrow> frame list option" where
  "read_frames bs =
     (if bs = [] then Some []
      else if length bs < 16 then None
      else (let l = resp_len (take 16 bs);
                k = (if l < 0 then 0 else nat l)
            in if length bs < 16 + k then None
               else map_option ((#) (load_u64 bs, l, take k (drop 16 bs)))
                      (read_frames (drop (16 + k) bs))))"
  by pat_completeness auto
termination
  by (relation "measure length") auto

declare read_frames.simps [simp del]

text \<open>Each frame starts at the address at which the one before it ended.\<close>

fun chained :: "64 word \<Rightarrow> frame list \<Rightarrow> bool" where
  "chained a [] = True"
| "chained a (f # fs) = (fst f = a \<and> chained (a + word_of_int (fst (snd f))) fs)"

text \<open>
  The rounds in which \<open>n\<close> bytes from offset \<open>off\<close> on are transferred when nothing
  fails: offset and size of each, at most 4096 bytes at a time.
\<close>

function chunks :: "nat \<Rightarrow> nat \<Rightarrow> (nat \<times> nat) list" where
  "chunks off n =
     (if n = 0 then [] else (off, min n 4096) # chunks (off + min n 4096) (n - min n 4096))"
  by pat_completeness auto
termination
  by (relation "measure (\<lambda>(off, n). n)") auto

declare chunks.simps [simp del]

text \<open>The frame of one round over readable memory: the bytes of the source.\<close>

definition chunk_frame :: "(64 word \<rightharpoonup> byte) \<Rightarrow> 64 word \<Rightarrow> nat \<times> nat \<Rightarrow> frame" where
  "chunk_frame m a c =
     (case c of (off, k) \<Rightarrow> (a + of_nat off, int k, bytes_at m (a + of_nat off) k))"

subsection \<open>The system calls on a channel that takes every write\<close>

lemma write_retry_all:
  "accepting c = [] \<Longrightarrow>
   write_retry buf len c = (Inr (length (take len buf)), c\<lparr>sent := sent c @ take len buf\<rparr>)"
  by (subst write_retry.simps) (simp add: sys_write_def Let_def)

lemma safe_write_all:
  assumes "accepting c = []" and "len \<le> length buf"
  shows "safe_write buf len c = Some (int len, c\<lparr>sent := sent c @ take len buf\<rparr>)"
proof (cases "len = 0")
  case True
  then show ?thesis
    by (simp add: safe_write_def) (subst safe_write_loop.simps, simp)
next
  case False
  have l: "length (take len buf) = len" using assms(2) by simp
  have "safe_write_loop buf 0 len len 0 c =
          safe_write_loop buf len len (len - len) (int len) (c\<lparr>sent := sent c @ take len buf\<rparr>)"
    using False l by (subst safe_write_loop.simps) (simp add: write_retry_all [OF assms(1)])
  also have "\<dots> = Some (int len, c\<lparr>sent := sent c @ take len buf\<rparr>)"
    by (subst safe_write_loop.simps) simp
  finally show ?thesis by (simp add: safe_write_def)
qed

subsection \<open>safe_read\<close>

lemma read_retry_arrives:
  "incoming c = Arrives bs # rest \<Longrightarrow> length bs \<le> len \<Longrightarrow>
   read_retry len c = (Inr bs, c\<lparr>incoming := rest\<rparr>)"
  by (subst read_retry.simps) (simp add: sys_read_def Let_def)

lemma read_retry_fails:
  "incoming c = Read_fails e # rest \<Longrightarrow> e \<noteq> EINTR \<Longrightarrow>
   read_retry len c = (Inl e, c\<lparr>incoming := rest\<rparr>)"
  by (subst read_retry.simps) (simp add: sys_read_def Let_def)

lemma read_retry_closed:
  "incoming c = [] \<Longrightarrow> read_retry len c = (Inr [], c)"
  by (subst read_retry.simps) (simp add: sys_read_def Let_def)

text \<open>A request that arrives in one piece is read whole.\<close>

lemma safe_read_whole:
  assumes "incoming c = Arrives bs # rest" and "length bs = len" and "length buf = len"
    and False: "len \<noteq> 0"
  shows "safe_read buf len c = Some ((int len, bs), c\<lparr>incoming := rest\<rparr>)"
proof -
  have "safe_read_loop buf 0 len len 0 c =
          safe_read_loop (bs @ drop (length bs) buf) len len (len - len) (int len)
            (c\<lparr>incoming := rest\<rparr>)"
    using False assms
    by (subst safe_read_loop.simps) (simp add: read_retry_arrives [OF assms(1)])
  also have "\<dots> = Some ((int len, bs), c\<lparr>incoming := rest\<rparr>)"
    using assms by (subst safe_read_loop.simps) simp
  finally show ?thesis by (simp add: safe_read_def)
qed

text \<open>A failing \<^verbatim>\<open>read\<close> (other than an interrupted one) makes \<^verbatim>\<open>safe_read\<close> return \<open>-1\<close>.\<close>

lemma safe_read_fails:
  assumes "incoming c = Read_fails e # rest" and "e \<noteq> EINTR" and "0 < len"
  shows "safe_read buf len c = Some ((-1, buf), c\<lparr>incoming := rest\<rparr>)"
  using assms(3)
  by (simp add: safe_read_def) (subst safe_read_loop.simps, simp add: read_retry_fails [OF assms(1,2)])

text \<open>
  At the end of the stream \<^verbatim>\<open>read\<close> returns 0, the loop of \<^verbatim>\<open>safe_read\<close> adds 0 to
  its pointers and tries again: the call never returns.
\<close>

lemma safe_read_loop_closed:
  "incoming c = [] \<Longrightarrow> ptr < endp \<Longrightarrow> safe_read_loop buf ptr endp len total' c = None"
proof -
  have "\<not> (incoming c = [] \<and> ptr < endp)" if "safe_read_loop buf ptr endp len total' c = Some y" for y
    by (rule safe_read_loop.raw_induct
          [where P = "\<lambda>buf ptr endp len total' c y. \<not> (incoming c = [] \<and> ptr < endp)", OF _ that])
       (auto simp: read_retry_closed)
  then show "incoming c = [] \<Longrightarrow> ptr < endp \<Longrightarrow> safe_read_loop buf ptr endp len total' c = None"
    by (cases "safe_read_loop buf ptr endp len total' c") auto
qed

lemma safe_read_closed: "incoming c = [] \<Longrightarrow> 0 < len \<Longrightarrow> safe_read buf len c = None"
  by (simp add: safe_read_def safe_read_loop_closed)

subsection \<open>Memory ranges\<close>

lemma length_bytes_at [simp]: "length (bytes_at m a n) = n"
  by (simp add: bytes_at_def)

lemma readable_le: "readable m a n \<Longrightarrow> k \<le> n \<Longrightarrow> readable m a k"
  by (simp add: readable_def list_all_iff)

lemma readable_shift:
  assumes "readable m a n" and "k \<le> n"
  shows "readable m (a + of_nat k) (n - k)"
proof -
  have "m (a + of_nat k + of_nat i) \<noteq> None" if "i < n - k" for i
  proof -
    from that assms(2) have "k + i < n" by simp
    then have "k + i \<in> set [0..<n]" by simp
    moreover have "\<forall>j\<in>set [0..<n]. m (a + of_nat j) \<noteq> None"
      using assms(1) unfolding readable_def list_all_iff .
    ultimately have "m (a + of_nat (k + i)) \<noteq> None" by blast
    moreover have "a + of_nat (k + i) = a + of_nat k + of_nat i" by (simp add: add.assoc)
    ultimately show ?thesis by (simp add: add.assoc)
  qed
  then show ?thesis by (simp add: readable_def list_all_iff)
qed


lemma readable_prefix_le: "readable_prefix m a n \<le> n"
proof -
  have "length (takeWhile P [0..<n]) \<le> length [0..<n]" for P :: "nat \<Rightarrow> bool"
    by (rule length_takeWhile_le)
  then show ?thesis by (simp add: readable_prefix_def)
qed

lemma readable_prefix_readable: "readable m a n \<Longrightarrow> readable_prefix m a n = n"
proof -
  assume "readable m a n"
  then have "\<forall>i\<in>set [0..<n]. m (a + of_nat i) \<noteq> None"
    unfolding readable_def list_all_iff .
  then have "takeWhile (\<lambda>i. m (a + of_nat i) \<noteq> None) [0..<n] = [0..<n]"
    by (simp only: takeWhile_eq_all_conv)
  then have "length (takeWhile (\<lambda>i. m (a + of_nat i) \<noteq> None) [0..<n]) = length [0..<n]"
    by (rule arg_cong)
  then show ?thesis by (simp add: readable_prefix_def)
qed

lemma readable_prefix_unreadable:
  assumes "m a = None"
  shows "readable_prefix m a n = 0"
proof (cases n)
  case 0
  then show ?thesis by (simp add: readable_prefix_def)
next
  case (Suc k)
  have "[0..<Suc k] = 0 # [Suc 0..<Suc k]" by (rule upt_conv_Cons) simp
  then show ?thesis
    using assms unfolding Suc readable_prefix_def by (simp del: upt_Suc)
qed

lemma readable_prefix_range: "readable m a (readable_prefix m a n)"
proof -
  define P where "P = (\<lambda>i. m (a + of_nat i) \<noteq> None)"
  have "P i" if "i < length (takeWhile P [0..<n])" for i
  proof -
    have "length (takeWhile P [0..<n]) \<le> length [0..<n]" by (rule length_takeWhile_le)
    with that have "i < n" by simp
    have "takeWhile P [0..<n] ! i = [0..<n] ! i" using that by (rule takeWhile_nth)
    with \<open>i < n\<close> have "takeWhile P [0..<n] ! i = i" by simp
    moreover have "takeWhile P [0..<n] ! i \<in> set (takeWhile P [0..<n])"
      using that by (rule nth_mem)
    then have "P (takeWhile P [0..<n] ! i)" by (blast dest: set_takeWhileD)
    ultimately show ?thesis by simp
  qed
  then show ?thesis
    unfolding readable_def readable_prefix_def list_all_iff P_def by simp
qed

lemma length_faulted_memcpy [simp]: "length (faulted_memcpy stored m to from len) = length to"
  by (simp add: faulted_memcpy_def min_def)

subsection \<open>One call of memserver_read\<close>

lemma length_store_u64 [simp]: "length (store_u64 w) = 8"
  by (simp add: store_u64_def)

lemma length_memserver_resp [simp]: "length (memserver_resp a l) = 16"
  by (simp add: memserver_resp_def)

lemma memserver_read_frame:
  "memory (snd (memserver_read st a len)) = memory st"
  "chan (snd (memserver_read st a len)) = chan st"
  "req (snd (memserver_read st a len)) = req st"
  "memserver_has_ptrace (snd (memserver_read st a len)) = memserver_has_ptrace st"
  "memcpy_stored (snd (memserver_read st a len)) = memcpy_stored st"
  by (simp_all add: memserver_read_def Let_def)

lemma memserver_read_buffer:
  assumes "length (memserver_buffer st) = 4096" and "len \<le> 4096"
  shows "length (memserver_buffer (snd (memserver_read st a len))) = 4096"
  using assms readable_prefix_le [of "memory st" a len]
  by (simp add: memserver_read_def Let_def)

lemma memserver_read_range:
  assumes "0 < len"
  shows "fst (memserver_read st a len) = -1 \<or>
         (1 \<le> fst (memserver_read st a len) \<and> fst (memserver_read st a len) \<le> int len)"
  using assms readable_prefix_le [of "memory st" a len]
  by (simp add: memserver_read_def Let_def)

lemma memserver_read_readable:
  assumes "readable (memory st) a len" and "len \<le> length (memserver_buffer st)"
  shows "fst (memserver_read st a len) = int len"
    and "take len (memserver_buffer (snd (memserver_read st a len))) = bytes_at (memory st) a len"
  using assms by (auto simp add: memserver_read_def Let_def readable_prefix_readable)

text \<open>What a call returns is readable, and the buffer holds it.\<close>

lemma memserver_read_privileged:
  assumes "memserver_has_ptrace st" and "0 \<le> fst (memserver_read st a len)"
    and "len \<le> length (memserver_buffer st)"
  shows "readable (memory st) a (nat (fst (memserver_read st a len)))"
    and "take (nat (fst (memserver_read st a len))) (memserver_buffer (snd (memserver_read st a len))) =
         bytes_at (memory st) a (nat (fst (memserver_read st a len)))"
  using assms readable_prefix_range [of "memory st" a len]
  by (auto simp add: memserver_read_def Let_def split: if_splits)

subsection \<open>One round of the inner loop\<close>

lemma todo_unat:
  fixes bytes :: "64 word"
  shows "unat (if bytes < 4096 then bytes else 4096) = min (unat bytes) 4096"
  by (simp add: word_less_nat_alt min_def)

lemma bytes_minus_ret:
  fixes bytes :: "64 word"
  assumes "r \<le> unat bytes"
  shows "unat (bytes - word_of_int (int r)) = unat bytes - r"
proof -
  have "unat bytes < 2 ^ 64" using unsigned_less [of bytes] by simp
  with assms have "r < 2 ^ 64" by simp
  then have u: "unat (word_of_nat r :: 64 word) = r"
    by (simp add: unsigned_of_nat take_bit_nat_eq_self)
  then have "word_of_nat r \<le> bytes" using assms by (simp add: word_le_nat_alt)
  then show ?thesis using u by (simp add: unat_sub)
qed

lemma serve_request_round:
  fixes addr bytes :: "64 word" and st :: memserver
  assumes acc: "accepting (chan st) = []" and buf: "length (memserver_buffer st) = 4096"
    and nz: "bytes \<noteq> 0"
  defines "todo \<equiv> min (unat bytes) 4096"
  defines "ret \<equiv> fst (memserver_read st addr todo)"
  defines "st1 \<equiv> snd (memserver_read st addr todo)"
  shows "serve_request addr bytes st =
     (if ret < 0
      then Some (True, st1\<lparr>chan := (chan st)\<lparr>sent := sent (chan st) @ memserver_resp addr ret\<rparr>\<rparr>)
      else serve_request (addr + word_of_int ret) (bytes - word_of_int ret)
             (st1\<lparr>chan := (chan st)\<lparr>sent := sent (chan st) @ memserver_resp addr ret @
                      take (nat ret) (memserver_buffer st1)\<rparr>\<rparr>))"
proof -
  have todo: "unat (if bytes < 4096 then bytes else 4096) = todo"
    by (simp add: todo_def todo_unat)
  have tpos: "0 < todo" using nz by (simp add: todo_def unat_gt_0)
  have c1: "chan st1 = chan st" by (simp add: st1_def memserver_read_frame)
  have b1: "length (memserver_buffer st1) = 4096"
    unfolding st1_def by (rule memserver_read_buffer [OF buf]) (simp add: todo_def)
  have w1: "safe_write (memserver_resp addr ret) 16 (chan st) =
     Some (16, (chan st)\<lparr>sent := sent (chan st) @ memserver_resp addr ret\<rparr>)"
    using safe_write_all [OF acc, of 16 "memserver_resp addr ret"] by simp
  show ?thesis
  proof (cases "ret < 0")
    case True
    then show ?thesis
      using nz w1 c1
      by (subst serve_request.simps) (simp add: Let_def todo ret_def [symmetric] st1_def [symmetric])
  next
    case False
    from memserver_read_range [OF tpos, of st addr] False
    have r: "1 \<le> ret" "ret \<le> int todo" by (simp_all add: ret_def)
    then have nr: "nat ret \<le> length (memserver_buffer st1)"
      using b1 by (simp add: todo_def)
    have acc1: "accepting ((chan st)\<lparr>sent := sent (chan st) @ memserver_resp addr ret\<rparr>) = []"
      using acc by simp
    have w2: "safe_write (memserver_buffer st1) (nat ret)
        ((chan st)\<lparr>sent := sent (chan st) @ memserver_resp addr ret\<rparr>) =
      Some (ret, (chan st)\<lparr>sent := sent (chan st) @ memserver_resp addr ret @
                      take (nat ret) (memserver_buffer st1)\<rparr>)"
      using safe_write_all [OF acc1 nr] r by simp
    show ?thesis
      using nz w1 w2 c1 False
      by (subst serve_request.simps) (simp add: Let_def todo ret_def [symmetric] st1_def [symmetric])
  qed
qed

subsection \<open>The rounds\<close>

lemma chunks_0 [simp]: "chunks off 0 = []"
  by (subst chunks.simps) simp

lemma chunks_pos: "0 < n \<Longrightarrow> chunks off n = (off, min n 4096) # chunks (off + min n 4096) (n - min n 4096)"
  by (subst chunks.simps) simp

lemma chunks_single: "0 < n \<Longrightarrow> n \<le> 4096 \<Longrightarrow> chunks off n = [(off, n)]"
  by (simp add: chunks_pos min_def)



lemma chunks_length: "length (chunks off n) = (n + 4095) div 4096"
proof (induction off n rule: chunks.induct)
  case (1 off n)
  show ?case
  proof (cases "n = 0")
    case True
    then show ?thesis by simp
  next
    case False
    show ?thesis
    proof (cases "n \<le> 4096")
      case True
      with False have "(n + 4095) div 4096 = 1" by simp
      with True False show ?thesis by (simp add: chunks_single)
    next
      case big: False
      then have m: "min n 4096 = 4096" by simp
      have "length (chunks (off + 4096) (n - 4096)) = (n - 4096 + 4095) div 4096"
        using 1 False m by simp
      moreover have "(n + 4095) div 4096 = Suc ((n - 4096 + 4095) div 4096)"
      proof -
        have e: "n + 4095 = (n - 4096 + 4095) + 4096" using big by simp
        have "(n - 4096 + 4095 + 4096) div 4096 = (n - 4096 + 4095) div 4096 + 1"
          by (rule div_add_self2) simp
        then show ?thesis by (simp only: e)
      qed
      ultimately show ?thesis using False m by (simp add: chunks_pos)
    qed
  qed
qed


lemma well_framed_chunk: "well_framed (chunk_frame m a c)"
  by (cases c) (simp add: well_framed_def chunk_frame_def)

subsection \<open>A request over readable memory\<close>

lemma serve_request_readable:
  fixes n :: "64 word"
  assumes "readable (memory st) (a + of_nat off) (unat n)"
    and "accepting (chan st) = []" and "length (memserver_buffer st) = 4096"
  shows "\<exists>st'. serve_request (a + of_nat off) n st = Some (True, st') \<and>
     sent (chan st') =
       sent (chan st) @ concat (map (\<lambda>c. wire (chunk_frame (memory st) a c)) (chunks off (unat n))) \<and>
     memory st' = memory st \<and> memserver_has_ptrace st' = memserver_has_ptrace st \<and>
     req st' = req st \<and> accepting (chan st') = [] \<and> incoming (chan st') = incoming (chan st) \<and>
     closed (chan st') = closed (chan st) \<and> length (memserver_buffer st') = 4096"
  using assms
proof (induction "unat n" arbitrary: n off st rule: less_induct)
  case less
  show ?case
  proof (cases "n = 0")
    case True
    then show ?thesis
      using less.prems by (subst serve_request.simps) simp
  next
    case False
    define k where "k = min (unat n) 4096"
    define st1 where "st1 = snd (memserver_read st (a + of_nat off) k)"
    have npos: "0 < unat n" using False by (simp add: unat_gt_0)
    have kn: "k \<le> unat n" and k4: "k \<le> 4096" and kpos: "0 < k"
      using npos by (simp_all add: k_def)
    have rk: "readable (memory st) (a + of_nat off) k"
      by (rule readable_le [OF less.prems(1) kn])
    have ret: "fst (memserver_read st (a + of_nat off) k) = int k"
      and pay: "take k (memserver_buffer st1) = bytes_at (memory st) (a + of_nat off) k"
      using memserver_read_readable [OF rk] less.prems(3) k4 by (simp_all add: st1_def)
    define st2 where "st2 = st1\<lparr>chan := (chan st)\<lparr>sent := sent (chan st) @
        memserver_resp (a + of_nat off) (int k) @ bytes_at (memory st) (a + of_nat off) k\<rparr>\<rparr>"
    have step: "serve_request (a + of_nat off) n st =
        serve_request (a + of_nat (off + k)) (n - of_nat k) st2"
      using serve_request_round [OF less.prems(2,3) False, of "a + of_nat off"] ret pay
      by (simp add: k_def [symmetric] st1_def [symmetric] st2_def add.assoc)
    have un: "unat (n - of_nat k) = unat n - k"
      using bytes_minus_ret [OF kn] by simp
    have m2: "memory st2 = memory st" and h2: "memserver_has_ptrace st2 = memserver_has_ptrace st"
      and q2: "req st2 = req st"
      by (simp_all add: st2_def st1_def memserver_read_frame)
    have b2: "length (memserver_buffer st2) = 4096"
      using memserver_read_buffer [OF less.prems(3) k4, of "a + of_nat off"]
      by (simp add: st2_def st1_def)
    have r2: "readable (memory st2) (a + of_nat (off + k)) (unat (n - of_nat k))"
      using readable_shift [OF less.prems(1) kn] by (simp add: m2 un add.assoc)
    have a2: "accepting (chan st2) = []" using less.prems(2) by (simp add: st2_def)
    have lt: "unat (n - of_nat k) < unat n" using un kpos kn by simp
    from less.hyps [OF lt r2 a2 b2]
    obtain st' where st': "serve_request (a + of_nat (off + k)) (n - of_nat k) st2 = Some (True, st')"
      "sent (chan st') = sent (chan st2) @
         concat (map (\<lambda>c. wire (chunk_frame (memory st2) a c)) (chunks (off + k) (unat (n - of_nat k))))"
      "memory st' = memory st2" "memserver_has_ptrace st' = memserver_has_ptrace st2"
      "req st' = req st2" "accepting (chan st') = []" "incoming (chan st') = incoming (chan st2)"
      "closed (chan st') = closed (chan st2)" "length (memserver_buffer st') = 4096"
      by blast
    have ch: "chunks off (unat n) = (off, k) # chunks (off + k) (unat n - k)"
      using npos by (simp add: chunks_pos k_def)
    have "sent (chan st') = sent (chan st) @
        concat (map (\<lambda>c. wire (chunk_frame (memory st) a c)) (chunks off (unat n)))"
      using st'(2) unfolding m2 un ch by (simp add: st2_def wire_def chunk_frame_def)
    then show ?thesis
      using step st' m2 h2 q2 by (simp add: st2_def)
  qed
qed

subsection \<open>A request over any memory\<close>

lemma serve_request_frames:
  fixes n :: "64 word"
  assumes "accepting (chan st) = []" and "length (memserver_buffer st) = 4096"
  shows "\<exists>st' fs. serve_request a n st = Some (True, st') \<and>
     sent (chan st') = sent (chan st) @ concat (map wire fs) \<and>
     list_all (\<lambda>(b, l, p). (l = -1 \<and> p = []) \<or> (1 \<le> l \<and> l \<le> 4096 \<and> length p = nat l)) fs \<and>
     (fs = []) = (n = 0) \<and>
     list_all (\<lambda>f. 0 \<le> fst (snd f)) (butlast fs) \<and>
     chained a fs \<and>
     sum_list (map (\<lambda>f. length (snd (snd f))) fs) \<le> unat n \<and>
     (sum_list (map (\<lambda>f. length (snd (snd f))) fs) = unat n \<or>
      (fs \<noteq> [] \<and> fst (snd (last fs)) = -1)) \<and>
     (readable (memory st) a (unat n) \<longrightarrow>
        length fs = (unat n + 4095) div 4096 \<and> list_all (\<lambda>f. 0 \<le> fst (snd f)) fs)"
  using assms
proof (induction "unat n" arbitrary: n a st rule: less_induct)
  case less
  show ?case
  proof (cases "n = 0")
    case True
    have "serve_request a n st = Some (True, st)"
      using True by (subst serve_request.simps) simp
    then show ?thesis
      using True by (intro exI [of _ st] exI [of _ "[]"]) simp
  next
    case False
    define k where "k = min (unat n) 4096"
    define ret where "ret = fst (memserver_read st a k)"
    define st1 where "st1 = snd (memserver_read st a k)"
    have npos: "0 < unat n" using False by (simp add: unat_gt_0)
    have kn: "k \<le> unat n" and k4: "k \<le> 4096" and kpos: "0 < k"
      using npos by (simp_all add: k_def)
    have b1: "length (memserver_buffer st1) = 4096"
      unfolding st1_def by (rule memserver_read_buffer [OF less.prems(2) k4])
    have m1: "memory st1 = memory st" by (simp add: st1_def memserver_read_frame)
    have rd: "ret = int k" if "readable (memory st) a (unat n)"
      using memserver_read_readable(1) [OF readable_le [OF that kn]] less.prems(2) k4
      by (simp add: ret_def)
    have ch: "(unat n + 4095) div 4096 = Suc ((unat n - k + 4095) div 4096)"
      using chunks_length [of 0 "unat n"] chunks_length [of k "unat n - k"] npos
      by (simp add: chunks_pos k_def)
    note round = serve_request_round [OF less.prems False, of a,
        unfolded k_def [symmetric] ret_def [symmetric] st1_def [symmetric]]
    show ?thesis
    proof (cases "ret < 0")
      case True
      with memserver_read_range [OF kpos, of st a] have r: "ret = -1" by (simp add: ret_def)
      define st' where "st' = st1\<lparr>chan := (chan st)\<lparr>sent := sent (chan st) @ memserver_resp a ret\<rparr>\<rparr>"
      have "serve_request a n st = Some (True, st')"
        using round True by (simp add: st'_def)
      moreover have "\<not> readable (memory st) a (unat n)" using rd True by auto
      ultimately show ?thesis
        using r False
        by (intro exI [of _ st'] exI [of _ "[(a, ret, [])]"])
           (simp add: st'_def wire_def)
    next
      case nonneg: False
      from memserver_read_range [OF kpos, of st a] nonneg
      have r: "1 \<le> ret" "ret \<le> int k" by (simp_all add: ret_def)
      define p where "p = take (nat ret) (memserver_buffer st1)"
      define st2 where "st2 = st1\<lparr>chan := (chan st)\<lparr>sent := sent (chan st) @
          memserver_resp a ret @ p\<rparr>\<rparr>"
      have step: "serve_request a n st =
          serve_request (a + word_of_int ret) (n - word_of_int ret) st2"
        using round nonneg by (simp add: st2_def p_def)
      have rn: "nat ret \<le> unat n" using r kn by simp
      have un: "unat (n - word_of_int ret) = unat n - nat ret"
        using bytes_minus_ret [OF rn] r by simp
      have lt: "unat (n - word_of_int ret) < unat n" using un r rn by simp
      have a2: "accepting (chan st2) = []" using less.prems(1) by (simp add: st2_def)
      have b2: "length (memserver_buffer st2) = 4096" using b1 by (simp add: st2_def)
      have m2: "memory st2 = memory st" using m1 by (simp add: st2_def)
      from less.hyps [OF lt a2 b2, of "a + word_of_int ret"]
      obtain st' fs where IH: "serve_request (a + word_of_int ret) (n - word_of_int ret) st2 = Some (True, st')"
        "sent (chan st') = sent (chan st2) @ concat (map wire fs)"
        "list_all (\<lambda>(b, l, p). (l = -1 \<and> p = []) \<or> (1 \<le> l \<and> l \<le> 4096 \<and> length p = nat l)) fs"
        "list_all (\<lambda>f. 0 \<le> fst (snd f)) (butlast fs)"
        "chained (a + word_of_int ret) fs"
        "sum_list (map (\<lambda>f. length (snd (snd f))) fs) \<le> unat (n - word_of_int ret)"
        "sum_list (map (\<lambda>f. length (snd (snd f))) fs) = unat (n - word_of_int ret) \<or>
           (fs \<noteq> [] \<and> fst (snd (last fs)) = -1)"
        "readable (memory st2) (a + word_of_int ret) (unat (n - word_of_int ret)) \<longrightarrow>
           length fs = (unat (n - word_of_int ret) + 4095) div 4096 \<and>
           list_all (\<lambda>f. 0 \<le> fst (snd f)) fs"
        by blast
      have lp: "length p = nat ret" using r k4 b1 by (simp add: p_def)
      have r4: "ret \<le> 4096" using r k4 by simp
      have cnt: "length ((a, ret, p) # fs) = (unat n + 4095) div 4096 \<and>
          list_all (\<lambda>f. 0 \<le> fst (snd f)) ((a, ret, p) # fs)"
        if rr: "readable (memory st) a (unat n)"
      proof -
        have e: "ret = int k" by (rule rd [OF rr])
        have "word_of_int ret = (of_nat k :: 64 word)" by (simp add: e)
        then have "readable (memory st2) (a + word_of_int ret) (unat (n - word_of_int ret))"
          using readable_shift [OF rr kn] un e by (simp add: m2)
        with IH(8) have "length fs = (unat n - k + 4095) div 4096"
          and "list_all (\<lambda>f. 0 \<le> fst (snd f)) fs" using un e by simp_all
        then show ?thesis using ch r(1) by simp
      qed
      have s1: "sent (chan st') = sent (chan st) @ concat (map wire ((a, ret, p) # fs))"
        using IH(2) by (simp add: st2_def wire_def)
      have s2: "list_all (\<lambda>(b, l, p). (l = -1 \<and> p = []) \<or> (1 \<le> l \<and> l \<le> 4096 \<and> length p = nat l))
          ((a, ret, p) # fs)"
        using IH(3) r(1) r4 lp by simp
      have s3: "list_all (\<lambda>f. 0 \<le> fst (snd f)) (butlast ((a, ret, p) # fs))"
        using IH(4) r(1) by simp
      have s4: "chained a ((a, ret, p) # fs)" using IH(5) by simp
      have s5: "sum_list (map (\<lambda>f. length (snd (snd f))) ((a, ret, p) # fs)) \<le> unat n"
        using IH(6) lp un rn by simp
      have s6: "sum_list (map (\<lambda>f. length (snd (snd f))) ((a, ret, p) # fs)) = unat n \<or>
          ((a, ret, p) # fs \<noteq> [] \<and> fst (snd (last ((a, ret, p) # fs))) = -1)"
        using IH(7) lp un rn by auto
      have s7: "((a, ret, p) # fs = []) = (n = 0)" using False by simp
      have s0: "serve_request a n st = Some (True, st')" using step IH(1) by simp
      show ?thesis
        using s0 s1 s2 s3 s4 s5 s6 s7 cnt by blast
    qed
  qed
qed

subsection \<open>The wire records, read back\<close>

lemma load_store_u64: "load_u64 (store_u64 w) = w"
proof (rule bit_eqI)
  fix n
  assume "possible_bit TYPE(64 word) n"
  then have n: "n < 64" by (simp add: possible_bit_word)
  then consider "n < 8" | "8 \<le> n \<and> n < 16" | "16 \<le> n \<and> n < 24" | "24 \<le> n \<and> n < 32"
    | "32 \<le> n \<and> n < 40" | "40 \<le> n \<and> n < 48" | "48 \<le> n \<and> n < 56" | "56 \<le> n \<and> n < 64"
    by arith
  then show "bit (load_u64 (store_u64 w)) n = bit w n"
    by cases (auto simp add: load_u64_def store_u64_def upt_rec bit_simps)
qed

lemma resp_len_memserver_resp:
  "- (2 ^ 63) \<le> l \<Longrightarrow> l < 2 ^ 63 \<Longrightarrow> resp_len (memserver_resp a l) = l"
  by (simp add: resp_len_def memserver_resp_def load_store_u64 sint_sbintrunc'
      signed_take_bit_int_eq_self)

text \<open>The peer reads back the responses that were written.\<close>

lemma load_u64_memserver_resp: "load_u64 (memserver_resp a l @ bs) = a"
proof -
  have "take 8 (memserver_resp a l @ bs) = take 8 (store_u64 a)"
    by (simp add: memserver_resp_def)
  then have "load_u64 (memserver_resp a l @ bs) = load_u64 (store_u64 a)"
    by (simp only: load_u64_def)
  then show ?thesis by (simp only: load_store_u64)
qed

lemma read_frames_wire:
  assumes "(l = -1 \<and> p = []) \<or> (1 \<le> l \<and> l \<le> 4096 \<and> length p = nat l)"
  shows "read_frames (wire (a, l, p) @ bs) = map_option ((#) (a, l, p)) (read_frames bs)"
proof -
  define w where "w = wire (a, l, p) @ bs"
  have b: "- (2 ^ 63) \<le> l" "l < 2 ^ 63" using assms by auto
  have t: "take 16 w = memserver_resp a l" and d: "drop 16 w = p @ bs"
    and n: "length w = 16 + length p + length bs"
    by (simp_all add: w_def wire_def)
  have ne: "w \<noteq> []" using n by auto
  have r: "resp_len (take 16 w) = l"
    using resp_len_memserver_resp [OF b] by (simp only: t)
  have k: "(if l < 0 then 0 else nat l) = length p" using assms by auto
  have u: "load_u64 w = a"
    by (simp add: w_def wire_def load_u64_memserver_resp)
  have d2: "drop (16 + length p) w = bs" and t2: "take (length p) (drop 16 w) = p"
    by (simp_all add: w_def wire_def)
  have "read_frames w = map_option ((#) (a, l, p)) (read_frames bs)"
    by (subst read_frames.simps) (simp only: r k u n ne d2 t2 Let_def, simp)
  then show ?thesis by (simp only: w_def)
qed

lemma read_frames_frames:
  assumes "list_all (\<lambda>(a, l, p). (l = -1 \<and> p = []) \<or> (1 \<le> l \<and> l \<le> 4096 \<and> length p = nat l)) fs"
  shows "read_frames (concat (map wire fs)) = Some fs"
  using assms
proof (induction fs)
  case Nil
  show ?case by (subst read_frames.simps) simp
next
  case (Cons f fs)
  obtain a l p where f: "f = (a, l, p)" by (cases f)
  with Cons.prems have "(l = -1 \<and> p = []) \<or> (1 \<le> l \<and> l \<le> 4096 \<and> length p = nat l)"
    by simp
  from read_frames_wire [OF this, of a "concat (map wire fs)"] Cons
  show ?case by (simp add: f)
qed

subsection \<open>The outer loop\<close>

text \<open>After a request that arrived whole and was served, the server reads the next one.\<close>

lemma memserver_loop_next:
  assumes "incoming (chan st) = Arrives rq # rest" and "length rq = 16" and "length (req st) = 16"
    and "serve_request (load_u64 rq) (load_u64 (drop 8 rq))
           (st\<lparr>req := rq, chan := (chan st)\<lparr>incoming := rest\<rparr>\<rparr>) = Some (True, st')"
  shows "memserver_loop st = memserver_loop st'"
proof -
  have "safe_read (req st) 16 (chan st) = Some ((16, rq), (chan st)\<lparr>incoming := rest\<rparr>)"
    using safe_read_whole [OF assms(1), of 16 "req st"] assms(2,3) by simp
  then show ?thesis
    using assms(4) by (subst memserver_loop.simps) simp
qed

text \<open>A failing read ends the session with result 0 and the descriptor closed.\<close>

lemma memserver_loop_read_fails:
  assumes "incoming (chan st) = Read_fails e # rest" and "e \<noteq> EINTR"
  shows "memserver_loop st = Some (0, close_fd (st\<lparr>chan := (chan st)\<lparr>incoming := rest\<rparr>\<rparr>))"
proof -
  have "safe_read (req st) 16 (chan st) = Some ((-1, req st), (chan st)\<lparr>incoming := rest\<rparr>)"
    using safe_read_fails [OF assms, of 16 "req st"] by simp
  then show ?thesis
    by (subst memserver_loop.simps) simp
qed

text \<open>A failing write ends the session with result 1 and the descriptor closed.\<close>

lemma safe_write_fails:
  assumes "accepting c = Write_fails e # ws" and "e \<noteq> EINTR" and "0 < len"
  shows "safe_write buf len c = Some (-1, c\<lparr>accepting := ws\<rparr>)"
proof -
  have "write_retry buf len c = (Inl e, c\<lparr>accepting := ws\<rparr>)"
    using assms(1,2) by (subst write_retry.simps) (simp add: sys_write_def Let_def)
  then show ?thesis
    using assms(3) by (simp add: safe_write_def) (subst safe_write_loop.simps, simp)
qed

lemma memserver_loop_write_fails:
  assumes "incoming (chan st) = Arrives rq # rest" and "length rq = 16" and "length (req st) = 16"
    and "load_u64 (drop 8 rq) \<noteq> 0"
    and "accepting (chan st) = Write_fails e # ws" and "e \<noteq> EINTR"
  shows "\<exists>st'. memserver_loop st = Some (1, st') \<and> closed (chan st')"
proof -
  define st0 where "st0 = st\<lparr>req := rq, chan := (chan st)\<lparr>incoming := rest\<rparr>\<rparr>"
  define todo where "todo = (if load_u64 (drop 8 rq) < 4096 then load_u64 (drop 8 rq) else 4096)"
  define st1 where "st1 = snd (memserver_read st0 (load_u64 rq) (unat todo))"
  define ret where "ret = fst (memserver_read st0 (load_u64 rq) (unat todo))"
  have rd: "safe_read (req st) 16 (chan st) = Some ((16, rq), (chan st)\<lparr>incoming := rest\<rparr>)"
    using safe_read_whole [OF assms(1), of 16 "req st"] assms(2,3) by simp
  have c1: "chan st1 = chan st0" by (simp add: st1_def memserver_read_frame)
  have "accepting (chan st1) = Write_fails e # ws"
    using assms(5) by (simp add: c1 st0_def)
  from safe_write_fails [OF this assms(6), of 16 "memserver_resp (load_u64 rq) ret"]
  have w: "safe_write (memserver_resp (load_u64 rq) ret) 16 (chan st1) =
      Some (-1, (chan st1)\<lparr>accepting := ws\<rparr>)" by simp
  have sv: "serve_request (load_u64 rq) (load_u64 (drop 8 rq)) st0 =
      Some (False, st1\<lparr>chan := (chan st1)\<lparr>accepting := ws\<rparr>\<rparr>)"
    using assms(4) w
    by (subst serve_request.simps)
       (simp add: Let_def todo_def [symmetric] st1_def [symmetric] ret_def [symmetric])
  have "memserver_loop st = Some (1, close_fd (st1\<lparr>chan := (chan st1)\<lparr>accepting := ws\<rparr>\<rparr>))"
    using rd sv by (subst memserver_loop.simps) (simp add: st0_def [symmetric])
  then show ?thesis by (simp add: close_fd_def)
qed

text \<open>At the end of the stream the server is inside \<^verbatim>\<open>safe_read\<close> for ever.\<close>

lemma memserver_loop_closed: "incoming (chan st) = [] \<Longrightarrow> memserver_loop st = None"
  by (subst memserver_loop.simps) (simp add: safe_read_closed)

subsection \<open>A range that cannot be read\<close>

text \<open>With the capability, a range whose first byte cannot be read is answered with one
  header whose length field is \<open>-1\<close> and no payload, and the request is over.\<close>

lemma serve_request_fault_privileged:
  assumes "memserver_has_ptrace st" and "memory st a = None"
    and "n \<noteq> 0" and "accepting (chan st) = []" and "length (memserver_buffer st) = 4096"
  shows "serve_request a n st =
           Some (True, st\<lparr>chan := (chan st)\<lparr>sent := sent (chan st) @ memserver_resp a (-1)\<rparr>\<rparr>)"
proof -
  have "0 < unat n" using assms(3) by (simp add: unat_gt_0)
  then have "memserver_read st a (min (unat n) 4096) = (-1, st)"
    using assms(1) readable_prefix_unreadable [of "memory st" a, OF assms(2)]
    by (simp add: memserver_read_def Let_def)
  then show ?thesis
    using serve_request_round [OF assms(4,5,3), of a] by simp
qed

text \<open>Without it, a round whose range cannot be read whole is answered with a header
  whose length field is 1, followed by one byte of the buffer, and the loop goes on with
  the next address.\<close>

lemma serve_request_fault_unprivileged:
  assumes "\<not> memserver_has_ptrace st" and "\<not> readable (memory st) a (min (unat n) 4096)"
    and "n \<noteq> 0" and "accepting (chan st) = []" and "length (memserver_buffer st) = 4096"
  shows "\<exists>b buf. length buf = 4096 \<and> serve_request a n st =
           serve_request (a + 1) (n - 1)
             (st\<lparr>memserver_buffer := buf,
                 chan := (chan st)\<lparr>sent := sent (chan st) @ memserver_resp a 1 @ [b]\<rparr>\<rparr>)"
proof -
  define k where "k = min (unat n) 4096"
  define buf where "buf = faulted_memcpy (memcpy_stored st a k) (memory st) (memserver_buffer st) a k"
  have lb: "length buf = 4096" using assms(5) by (simp add: buf_def)
  then have t1: "take (Suc 0) buf = [buf ! 0]" by (simp add: take_Suc_conv_app_nth)
  have rd: "memserver_read st a k = (1, st\<lparr>memserver_buffer := buf\<rparr>)"
    using assms(1,2) by (simp add: memserver_read_def k_def buf_def)
  have "serve_request a n st =
           serve_request (a + 1) (n - 1)
             (st\<lparr>memserver_buffer := buf,
                 chan := (chan st)\<lparr>sent := sent (chan st) @ memserver_resp a 1 @ [buf ! 0]\<rparr>\<rparr>)"
    using serve_request_round [OF assms(4,5,3), of a] rd t1
    by (simp add: k_def [symmetric])
  with lb show ?thesis by blast
qed

text \<open>
  A range of which only the first part can be read, 4 bytes from \<open>0x1ffe\<close> on with
  the page at \<open>0x2000\<close> not mapped. With the capability the first round transfers
  the two readable bytes, and the second round, which starts at the unreadable page,
  is answered with the length \<open>-1\<close>.
\<close>

lemma memserver_read_partly_readable:
  "fst (memserver_read (example_server page_mapped True) 0x1ffe 4) = 2 \<and>
   take 4 (memserver_buffer (snd (memserver_read (example_server page_mapped True) 0x1ffe 4))) =
     [0xfe, 0xff, 0, 0]"
  by code_simp

lemma serve_request_partly_readable:
  "map_option (\<lambda>(ok, st'). (ok, sent (chan st')))
     (serve_request 0x1ffe 4 (example_server page_mapped True)) =
   Some (True, memserver_resp 0x1ffe 2 @ [0xfe, 0xff] @ memserver_resp 0x2000 (-1))"
  by code_simp

subsection \<open>Reads and writes in several pieces\<close>

text \<open>
  Every \<^verbatim>\<open>read\<close> and \<^verbatim>\<open>write\<close> of the two loops is given \<^verbatim>\<open>buf\<close>, not
  \<^verbatim>\<open>ptr\<close>. A request that arrives in two pieces of 8 bytes is therefore stored with
  the second piece over the first, and a header of which the kernel first takes 10 bytes
  is continued with its first 6 bytes again.
\<close>

lemma safe_read_two_pieces:
  "safe_read (replicate 16 0) 16
     (idle_channel\<lparr>incoming := [Arrives [1, 2, 3, 4, 5, 6, 7, 8],
                                  Arrives [9, 10, 11, 12, 13, 14, 15, 16]]\<rparr>) =
   Some ((16, [9, 10, 11, 12, 13, 14, 15, 16, 0, 0, 0, 0, 0, 0, 0, 0]), idle_channel)"
  by code_simp

lemma safe_write_two_pieces:
  "map_option (\<lambda>(ret, c). (ret, sent c))
     (safe_write [1, 2, 3, 4, 5, 6, 7, 8, 9, 10, 11, 12, 13, 14, 15, 16] 16
        (idle_channel\<lparr>accepting := [Takes 10]\<rparr>)) =
   Some (16, [1, 2, 3, 4, 5, 6, 7, 8, 9, 10, 1, 2, 3, 4, 5, 6])"
  by code_simp

subsection \<open>Serving a request reads nothing from the channel\<close>

lemma write_retry_incoming: "incoming (snd (write_retry buf len c)) = incoming c"
proof (induction buf len c rule: write_retry.induct)
  case (1 buf len c)
  have s: "incoming (snd (sys_write (take len buf) c)) = incoming c"
    by (simp add: sys_write_def split: list.splits accepting_event.splits)
  show ?case
  proof (cases "fst (sys_write (take len buf) c) = Inl EINTR")
    case True
    then show ?thesis
      using 1 [OF refl True] s by (subst write_retry.simps) (simp add: Let_def)
  next
    case False
    then show ?thesis
      using s by (subst write_retry.simps) (simp add: Let_def)
  qed
qed

lemma safe_write_loop_incoming:
  assumes "safe_write_loop buf ptr endp len total' c = Some y"
  shows "incoming (snd y) = incoming c"
proof (rule safe_write_loop.raw_induct
    [where P = "\<lambda>buf ptr endp len total' c y. incoming (snd y) = incoming c", OF _ assms])
  fix f buf ptr endp len total' c y
  assume IH: "\<And>buf ptr endp len total' c y. f buf ptr endp len total' c = Some y \<Longrightarrow>
      incoming (snd y) = incoming c"
    and body: "(if ptr < endp then
        (case write_retry buf len c of
           (Inl e, c') \<Rightarrow> Some (-1, c')
         | (Inr n, c') \<Rightarrow> f buf (ptr + n) endp (len - n) (total' + int n) c')
      else Some (total', c)) = Some y"
  show "incoming (snd y) = incoming c"
  proof (cases "ptr < endp")
    case False
    with body show ?thesis by auto
  next
    case True
    obtain r c' where w: "write_retry buf len c = (r, c')" by (cases "write_retry buf len c")
    then have i: "incoming c' = incoming c"
      using write_retry_incoming [of buf len c] by simp
    show ?thesis
    proof (cases r)
      case (Inl e)
      with body True w i show ?thesis by auto
    next
      case (Inr n)
      with body True w have "f buf (ptr + n) endp (len - n) (total' + int n) c' = Some y"
        by simp
      from IH [OF this] i show ?thesis by simp
    qed
  qed
qed

lemma safe_write_incoming:
  "safe_write buf len c = Some (r, c') \<Longrightarrow> incoming c' = incoming c"
  using safe_write_loop_incoming [of buf 0 len len 0 c "(r, c')"] by (simp add: safe_write_def)

lemma serve_request_incoming:
  assumes "serve_request a n st = Some y"
  shows "incoming (chan (snd y)) = incoming (chan st)"
proof (rule serve_request.raw_induct
    [where P = "\<lambda>a n st y. incoming (chan (snd y)) = incoming (chan st)", OF _ assms])
  fix f and addr bytes :: "64 word" and st :: memserver and y
  assume IH: "\<And>a n st y. f a n st = Some y \<Longrightarrow> incoming (chan (snd y)) = incoming (chan st)"
    and body: "(if bytes \<noteq> 0 then
        (let todo = (if bytes < 4096 then bytes else 4096);
             r = memserver_read st addr (unat todo);
             ret = fst r;
             st1 = snd r;
             resp = memserver_resp addr ret
         in do {
              (w, c1) \<leftarrow> safe_write resp 16 (chan st1);
              if w \<noteq> 16 then Some (False, st1\<lparr>chan := c1\<rparr>)
              else if ret < 0 then Some (True, st1\<lparr>chan := c1\<rparr>)
              else do {
                (w2, c2) \<leftarrow> safe_write (memserver_buffer st1) (nat ret) c1;
                if w2 \<noteq> ret then Some (False, st1\<lparr>chan := c2\<rparr>)
                else f (addr + word_of_int ret) (bytes - word_of_int ret) (st1\<lparr>chan := c2\<rparr>)
              }
            })
      else Some (True, st)) = Some y"
  show "incoming (chan (snd y)) = incoming (chan st)"
  proof (cases "bytes = 0")
    case True
    with body show ?thesis by auto
  next
    case False
    define todo where "todo = (if bytes < 4096 then bytes else 4096)"
    define ret where "ret = fst (memserver_read st addr (unat todo))"
    define st1 where "st1 = snd (memserver_read st addr (unat todo))"
    have c1: "chan st1 = chan st" by (simp add: st1_def memserver_read_frame)
    from body False have b1: "(safe_write (memserver_resp addr ret) 16 (chan st1) \<bind>
          (\<lambda>(w, c1). if w \<noteq> 16 then Some (False, st1\<lparr>chan := c1\<rparr>)
              else if ret < 0 then Some (True, st1\<lparr>chan := c1\<rparr>)
              else safe_write (memserver_buffer st1) (nat ret) c1 \<bind>
                (\<lambda>(w2, c2). if w2 \<noteq> ret then Some (False, st1\<lparr>chan := c2\<rparr>)
                   else f (addr + word_of_int ret) (bytes - word_of_int ret) (st1\<lparr>chan := c2\<rparr>)))) =
        Some y"
      unfolding ret_def st1_def todo_def by (simp add: Let_def)
    then obtain w ch1 where
      w: "safe_write (memserver_resp addr ret) 16 (chan st1) = Some (w, ch1)"
      and rest: "(if w \<noteq> 16 then Some (False, st1\<lparr>chan := ch1\<rparr>)
              else if ret < 0 then Some (True, st1\<lparr>chan := ch1\<rparr>)
              else safe_write (memserver_buffer st1) (nat ret) ch1 \<bind>
                (\<lambda>(w2, c2). if w2 \<noteq> ret then Some (False, st1\<lparr>chan := c2\<rparr>)
                   else f (addr + word_of_int ret) (bytes - word_of_int ret) (st1\<lparr>chan := c2\<rparr>))) =
        Some y"
      unfolding bind_eq_Some_conv by (auto simp del: split_paired_Ex)
    have i1: "incoming ch1 = incoming (chan st)"
      using safe_write_incoming [OF w] c1 by simp
    show ?thesis
    proof (cases "w \<noteq> 16 \<or> ret < 0")
      case True
      with rest i1 show ?thesis by (auto split: if_splits)
    next
      case False
      with rest have "safe_write (memserver_buffer st1) (nat ret) ch1 \<bind>
                (\<lambda>(w2, c2). if w2 \<noteq> ret then Some (False, st1\<lparr>chan := c2\<rparr>)
                   else f (addr + word_of_int ret) (bytes - word_of_int ret) (st1\<lparr>chan := c2\<rparr>)) =
        Some y"
        by simp
      then obtain w2 ch2 where
        w2: "safe_write (memserver_buffer st1) (nat ret) ch1 = Some (w2, ch2)"
        and rest2: "(if w2 \<noteq> ret then Some (False, st1\<lparr>chan := ch2\<rparr>)
                else f (addr + word_of_int ret) (bytes - word_of_int ret) (st1\<lparr>chan := ch2\<rparr>)) = Some y"
        unfolding bind_eq_Some_conv by (auto simp del: split_paired_Ex)
      have i2: "incoming ch2 = incoming (chan st)"
        using safe_write_incoming [OF w2] i1 by simp
      show ?thesis
      proof (cases "w2 \<noteq> ret")
        case True
        with rest2 i2 show ?thesis by auto
      next
        case False
        with rest2 have "f (addr + word_of_int ret) (bytes - word_of_int ret) (st1\<lparr>chan := ch2\<rparr>) = Some y"
          by simp
        from IH [OF this] i2 show ?thesis by simp
      qed
    qed
  qed
qed

text \<open>A request is answered, then the peer closes the stream: the server never returns.\<close>

lemma memserver_loop_request_then_closed:
  assumes "incoming (chan st) = [Arrives rq]" and "length rq = 16" and "length (req st) = 16"
    and "accepting (chan st) = []" and "length (memserver_buffer st) = 4096"
  shows "memserver_loop st = None"
proof -
  define st0 where "st0 = st\<lparr>req := rq, chan := (chan st)\<lparr>incoming := []\<rparr>\<rparr>"
  have "accepting (chan st0) = []" "length (memserver_buffer st0) = 4096"
    using assms(4,5) by (simp_all add: st0_def)
  from serve_request_frames [OF this, of "load_u64 rq" "load_u64 (drop 8 rq)"]
  obtain st' where sv: "serve_request (load_u64 rq) (load_u64 (drop 8 rq)) st0 = Some (True, st')"
    by blast
  from serve_request_incoming [OF sv] have "incoming (chan st') = []"
    by (simp add: st0_def)
  then have "memserver_loop st' = None" by (rule memserver_loop_closed)
  moreover have "memserver_loop st = memserver_loop st'"
    using memserver_loop_next [OF assms(1-3)] sv by (simp add: st0_def)
  ultimately show ?thesis by simp
qed

subsection \<open>The claims about the memory server\<close>


lemma all_mapped_readable: "readable all_mapped a n"
  by (simp add: readable_def all_mapped_def list_all_iff)

lemma example_server_ready:
  "accepting (chan (example_server m cap)) = []"
  "length (memserver_buffer (example_server m cap)) = 4096"
  "sent (chan (example_server m cap)) = []"
  "incoming (chan (example_server m cap)) = []"
  "memory (example_server m cap) = m"
  by (simp_all add: example_server_def idle_channel_def)

text \<open>
  Claim C1 fails on the code when the server has no \<^verbatim>\<open>CAP_SYS_PTRACE\<close>. A request for
  2 bytes at \<open>0x1000\<close>, where nothing is mapped: each of the two rounds faults, and
  the server answers each with a header whose length field is 1, not negative, and
  sends one byte of its buffer as payload. (With the capability the answer is one header
  with length \<open>-1\<close> and no payload: \<open>serve_request_fault_privileged\<close>. In both cases
  the server goes on to the next request: \<open>memserver_loop_next\<close>.)
\<close>

theorem memserver_fault_reply_unprivileged:
  "map_option (\<lambda>(ok, st'). (ok, sent (chan st')))
     (serve_request 0x1000 2 (example_server nothing_mapped False)) =
   Some (True, memserver_resp 0x1000 1 @ [0] @ memserver_resp 0x1001 1 @ [0]) \<and>
   resp_len (memserver_resp 0x1000 1) = 1"
proof -
  have "map_option (\<lambda>(ok, st'). (ok, sent (chan st')))
     (serve_request 0x1000 2 (example_server nothing_mapped False)) =
   Some (True, memserver_resp 0x1000 1 @ [0] @ memserver_resp 0x1001 1 @ [0])"
    by code_simp
  then show ?thesis by (simp add: resp_len_memserver_resp)
qed

text \<open>
  Claim C2, as amended. On a channel that takes every write, every request
  \<open>{a, n}\<close> is served to its end, and what the server writes for it is a sequence of
  responses, one per round of the loop and not one per request: none when \<open>n\<close> is 0
  and at least one otherwise, \<open>(n + 4095) div 4096\<close> of them, none with a negative
  length field, when the whole range is readable. Each response is a header whose length field, read as a signed 64-bit
  number, is either \<open>-1\<close>, and then no payload follows, or between 1 and 4096, and
  then exactly that many bytes of payload follow; so the peer that reads the bytes as
  the specification says reads exactly these responses. Only the last response of a
  request can have a negative length field. The first response has the address \<open>a\<close>
  and each later one the address at which the one before it ended. The payloads
  together have at most \<open>n\<close> bytes, and exactly \<open>n\<close> unless the last response has
  the length field \<open>-1\<close>.
\<close>

theorem serve_request_framing:
  assumes "accepting (chan st) = []" and "length (memserver_buffer st) = 4096"
  shows "\<exists>st' fs. serve_request a n st = Some (True, st') \<and>
     sent (chan st') = sent (chan st) @ concat (map wire fs) \<and>
     read_frames (concat (map wire fs)) = Some fs \<and>
     list_all (\<lambda>f. resp_len (take 16 (wire f)) = fst (snd f)) fs \<and>
     list_all (\<lambda>(b, l, p). (l = -1 \<and> p = []) \<or> (1 \<le> l \<and> l \<le> 4096 \<and> length p = nat l)) fs \<and>
     list_all well_framed fs \<and>
     (fs = []) = (n = 0) \<and>
     list_all (\<lambda>f. 0 \<le> fst (snd f)) (butlast fs) \<and>
     chained a fs \<and>
     sum_list (map (\<lambda>f. length (snd (snd f))) fs) \<le> unat n \<and>
     (sum_list (map (\<lambda>f. length (snd (snd f))) fs) = unat n \<or>
      (fs \<noteq> [] \<and> fst (snd (last fs)) = -1)) \<and>
     (readable (memory st) a (unat n) \<longrightarrow>
        length fs = (unat n + 4095) div 4096 \<and> list_all (\<lambda>f. 0 \<le> fst (snd f)) fs)"
proof -
  from serve_request_frames [OF assms, of a n]
  obtain st' fs where f: "serve_request a n st = Some (True, st')"
    "sent (chan st') = sent (chan st) @ concat (map wire fs)"
    "list_all (\<lambda>(b, l, p). (l = -1 \<and> p = []) \<or> (1 \<le> l \<and> l \<le> 4096 \<and> length p = nat l)) fs"
    "(fs = []) = (n = 0)"
    "list_all (\<lambda>f. 0 \<le> fst (snd f)) (butlast fs)"
    "chained a fs"
    "sum_list (map (\<lambda>f. length (snd (snd f))) fs) \<le> unat n"
    "sum_list (map (\<lambda>f. length (snd (snd f))) fs) = unat n \<or>
      (fs \<noteq> [] \<and> fst (snd (last fs)) = -1)"
    "readable (memory st) a (unat n) \<longrightarrow>
       length fs = (unat n + 4095) div 4096 \<and> list_all (\<lambda>f. 0 \<le> fst (snd f)) fs"
    by blast
  have rf: "read_frames (concat (map wire fs)) = Some fs"
    by (rule read_frames_frames [OF f(3)])
  have each: "resp_len (take 16 (wire x)) = fst (snd x) \<and> well_framed x" if "x \<in> set fs" for x
  proof -
    obtain b l p where x: "x = (b, l, p)" by (cases x)
    with that f(3) have c: "(l = -1 \<and> p = []) \<or> (1 \<le> l \<and> l \<le> 4096 \<and> length p = nat l)"
      by (auto simp add: list_all_iff)
    then have "- (2 ^ 63) \<le> l" "l < 2 ^ 63" by auto
    then have "resp_len (memserver_resp b l) = l" by (rule resp_len_memserver_resp)
    then show ?thesis using c by (auto simp add: x wire_def well_framed_def)
  qed
  then have rl: "list_all (\<lambda>f. resp_len (take 16 (wire f)) = fst (snd f)) fs"
    and wf: "list_all well_framed fs"
    by (simp_all add: list_all_iff)
  show ?thesis
    using f rf rl wf by blast
qed

text \<open>
  A request for 4097 readable bytes is answered with two responses, of 4096 bytes and
  of 1 byte. With the capability, a request for 4 bytes of which the first 2 are
  readable is answered with a response of 2 bytes and a response of length \<open>-1\<close>.
\<close>

theorem serve_request_framing_witness:
  "accepting (chan (example_server all_mapped False)) = [] \<and>
   length (memserver_buffer (example_server all_mapped False)) = 4096 \<and>
   readable (memory (example_server all_mapped False)) 0x1000 (unat (4097 :: 64 word)) \<and>
   (\<exists>st' fs. serve_request 0x1000 4097 (example_server all_mapped False) = Some (True, st') \<and>
      sent (chan st') = concat (map wire fs) \<and>
      read_frames (sent (chan st')) = Some fs \<and>
      fs = [(0x1000, 4096, bytes_at all_mapped 0x1000 4096),
            (0x2000, 1, bytes_at all_mapped 0x2000 1)] \<and>
      length fs = (unat (4097 :: 64 word) + 4095) div 4096) \<and>
   accepting (chan (example_server page_mapped True)) = [] \<and>
   length (memserver_buffer (example_server page_mapped True)) = 4096 \<and>
   (\<exists>st' fs. serve_request 0x1ffe 4 (example_server page_mapped True) = Some (True, st') \<and>
      sent (chan st') = concat (map wire fs) \<and>
      read_frames (sent (chan st')) = Some fs \<and>
      fs = [(0x1ffe, 2, [0xfe, 0xff]), (0x2000, -1, [])])"
proof -
  note e = example_server_ready [of all_mapped False]
  have r: "readable (memory (example_server all_mapped False)) 0x1000 (unat (4097 :: 64 word))"
    by (simp add: example_server_ready all_mapped_readable)
  have r0: "readable (memory (example_server all_mapped False)) (0x1000 + of_nat 0) (unat (4097 :: 64 word))"
    by (simp add: example_server_ready all_mapped_readable)
  define F :: "frame list" where
    "F = [(0x1000, 4096, bytes_at all_mapped 0x1000 4096), (0x2000, 1, bytes_at all_mapped 0x2000 1)]"
  from serve_request_framing [OF e(1,2), of "0x1000" 4097]
  obtain st' fs where a: "serve_request 0x1000 4097 (example_server all_mapped False) = Some (True, st')"
    "sent (chan st') = sent (chan (example_server all_mapped False)) @ concat (map wire fs)"
    "read_frames (concat (map wire fs)) = Some fs"
    and len: "readable (memory (example_server all_mapped False)) 0x1000 (unat (4097 :: 64 word)) \<longrightarrow>
      length fs = (unat (4097 :: 64 word) + 4095) div 4096 \<and> list_all (\<lambda>f. 0 \<le> fst (snd f)) fs"
    by blast
  have c: "chunks 0 (unat (4097 :: 64 word)) = [(0, 4096), (4096, 1)]"
    by (simp add: chunks_pos)
  from serve_request_readable [OF r0 e(1,2)]
  obtain st'' where b: "serve_request 0x1000 4097 (example_server all_mapped False) = Some (True, st'')"
    "sent (chan st'') = sent (chan (example_server all_mapped False)) @
       concat (map (\<lambda>c. wire (chunk_frame (memory (example_server all_mapped False)) 0x1000 c))
         (chunks 0 (unat (4097 :: 64 word))))"
    by auto
  have "st'' = st'" using a(1) b(1) by simp
  then have "concat (map wire fs) = concat (map wire F)"
    using a(2) b(2) unfolding c by (simp add: e chunk_frame_def F_def)
  moreover have "read_frames (concat (map wire F)) = Some F"
    by (rule read_frames_frames) (simp add: F_def)
  ultimately have fsF: "fs = F" using a(3) by simp
  have one: "\<exists>st' fs. serve_request 0x1000 4097 (example_server all_mapped False) = Some (True, st') \<and>
      sent (chan st') = concat (map wire fs) \<and>
      read_frames (sent (chan st')) = Some fs \<and>
      fs = [(0x1000, 4096, bytes_at all_mapped 0x1000 4096),
            (0x2000, 1, bytes_at all_mapped 0x2000 1)] \<and>
      length fs = (unat (4097 :: 64 word) + 4095) div 4096"
    using a len r fsF by (intro exI [of _ st'] exI [of _ fs]) (simp add: e F_def)
  note n = example_server_ready [of page_mapped True]
  from serve_request_framing [OF n(1,2), of "0x1ffe" 4]
  obtain st2 gs where g: "serve_request 0x1ffe 4 (example_server page_mapped True) = Some (True, st2)"
    "sent (chan st2) = sent (chan (example_server page_mapped True)) @ concat (map wire gs)"
    "read_frames (concat (map wire gs)) = Some gs"
    by blast
  from serve_request_partly_readable g(1)
  have "sent (chan st2) = memserver_resp 0x1ffe 2 @ [0xfe, 0xff] @ memserver_resp 0x2000 (-1)"
    by simp
  then have "concat (map wire gs) = concat (map wire [(0x1ffe, 2, [0xfe, 0xff]), (0x2000, -1, [])])"
    using g(2) by (simp add: n wire_def)
  moreover have "read_frames (concat (map wire [(0x1ffe, 2, [0xfe, 0xff]), (0x2000, -1, [])])) =
      Some [(0x1ffe, 2, [0xfe, 0xff]), (0x2000, -1, [])]"
    by (rule read_frames_frames) simp
  ultimately have "gs = [(0x1ffe, 2, [0xfe, 0xff]), (0x2000, -1, [])]" using g(3) by simp
  then have two: "\<exists>st' fs. serve_request 0x1ffe 4 (example_server page_mapped True) = Some (True, st') \<and>
      sent (chan st') = concat (map wire fs) \<and>
      read_frames (sent (chan st')) = Some fs \<and>
      fs = [(0x1ffe, 2, [0xfe, 0xff]), (0x2000, -1, [])]"
    using g by (intro exI [of _ st2] exI [of _ gs]) (simp add: n)
  show ?thesis
    using e(1,2) n(1,2) r one two by blast
qed

text \<open>
  The claim as it is written asks for exactly one response header for a request of
  length 0. The server writes nothing for it.
\<close>

theorem serve_request_empty_counterexample:
  "serve_request 0x1000 0 (example_server all_mapped False) =
     Some (True, example_server all_mapped False) \<and>
   sent (chan (example_server all_mapped False)) = []"
  by (subst serve_request.simps) (simp add: example_server_ready)




text \<open>
  Claim C4 fails on the code when the peer closes the stream: at the end of the
  stream \<^verbatim>\<open>read\<close> returns 0, \<^verbatim>\<open>safe_read\<close> loops on it for ever, and
  \<^verbatim>\<open>memserver_entry\<close> neither returns nor closes its descriptor. (A failing read and a
  failing write do end the session with the descriptor closed:
  \<open>memserver_loop_read_fails\<close>, \<open>memserver_loop_write_fails\<close>.)
\<close>

theorem memserver_entry_end_of_stream:
  "incoming (chan st) = [] \<Longrightarrow> memserver_entry capbset st = None"
  by (simp add: memserver_entry_def memserver_loop_closed)

theorem memserver_entry_end_of_stream_witness:
  "incoming (chan (example_server all_mapped False)) = [] \<and>
   memserver_entry 0 (example_server all_mapped False) = None"
  using memserver_entry_end_of_stream [of "example_server all_mapped False" 0]
  by (simp add: example_server_ready)

section \<open>Suspending the other threads: suspend_other_threads\<close>

subsection \<open>The code\<close>

text \<open>
  The C library's \<^verbatim>\<open>atoi\<close>: white space, an optional sign, digits; the result is an
  \<^verbatim>\<open>int\<close>, 32 bits.
\<close>

definition isspace :: "char \<Rightarrow> bool" where
  "isspace c = (c \<in> set [CHR '' '', CHR 0x09, CHR 0x0A, CHR 0x0B, CHR 0x0C, CHR 0x0D])"

definition isdigit :: "char \<Rightarrow> bool" where
  "isdigit c = (48 \<le> (of_char c :: nat) \<and> (of_char c :: nat) \<le> 57)"

fun digits_value :: "int \<Rightarrow> string \<Rightarrow> int" where
  "digits_value acc [] = acc"
| "digits_value acc (c # cs) =
     (if isdigit c then digits_value (acc * 10 + (int (of_char c) - 48)) cs else acc)"

definition atoi :: "string \<Rightarrow> 32 word" where
  "atoi s =
     (case dropWhile isspace s of
        [] \<Rightarrow> 0
      | c # cs \<Rightarrow>
          if c = CHR ''-'' then word_of_int (- digits_value 0 cs)
          else if c = CHR ''+'' then word_of_int (digits_value 0 cs)
          else word_of_int (digits_value 0 (c # cs)))"

text \<open>
  The other threads and the kernel are the environment of the coordinator.
  \<open>task_names env n\<close> are the names (\<^verbatim>\<open>d_name\<close>) of the entries of
  \<^verbatim>\<open>/proc/self/task\<close> that the \<^verbatim>\<open>getdents\<close> calls of pass \<open>n\<close> deliver, in their
  order, until a call returns no more. \<open>responds env tid\<close> says whether the thread
  runs the handler \<^verbatim>\<open>pause_thread\<close> when \<^verbatim>\<open>SIGPROF\<close> is sent to it, before the wait
  of that pass ends; \<open>pause_frame env tid\<close> and \<open>pause_uctx env tid\<close> are the address
  of the thread record in the frame of that handler and its context pointer.
  \<open>futex_waits env n\<close> are the results of the \<^verbatim>\<open>FUTEX_WAIT\<close> calls of pass \<open>n\<close>;
  when they are used up the next call runs into its timeout.
\<close>

datatype futex_result = Woken | Futex_fails syserr

record suspend_env =
  task_names :: "nat \<Rightarrow> string list"
  responds :: "32 word \<Rightarrow> bool"
  pause_frame :: "32 word \<Rightarrow> 64 word"
  pause_uctx :: "32 word \<Rightarrow> 64 word"
  futex_waits :: "nat \<Rightarrow> futex_result list"

text \<open>
  The state: the thread records and \<^verbatim>\<open>crashInfo\<close>, the global \<^verbatim>\<open>threads_paused\<close>,
  and the local \<^verbatim>\<open>thread_count\<close> of \<^verbatim>\<open>suspend_other_threads\<close>.
\<close>

record coordinator =
  reg :: registry
  threads_paused :: "32 word"
  thread_count :: "32 word"

definition notify_paused :: "coordinator \<Rightarrow> coordinator" where
  "notify_paused st = st\<lparr>threads_paused := threads_paused st + 1\<rparr>"

text \<open>
  \<^verbatim>\<open>pause_thread\<close>, run by the thread \<open>tid\<close>, up to the point where it blocks in
  \<^verbatim>\<open>take_thread_lock\<close>: it builds its record \<^verbatim>\<open>{ 0, gettid(), uctx }\<close>, adds it to
  the list and notifies the coordinator.
\<close>

definition pause_thread :: "suspend_env \<Rightarrow> 32 word \<Rightarrow> coordinator \<Rightarrow> coordinator" where
  "pause_thread env tid st =
     (let self = pause_frame env tid;
          r = reg st;
          r1 = r\<lparr>records := (records r)
                  (self \<mapsto> \<lparr>thread_next = 0, thread_tid = scast tid,
                            thread_uctx = pause_uctx env tid\<rparr>)\<rparr>
      in notify_paused (st\<lparr>reg := add_thread self r1\<rparr>))"

text \<open>\<^verbatim>\<open>tgkill(our_pid, tid, SIGPROF)\<close>, with what the signalled thread does.\<close>

definition tgkill :: "suspend_env \<Rightarrow> 32 word \<Rightarrow> coordinator \<Rightarrow> coordinator" where
  "tgkill env tid st = (if responds env tid then pause_thread env tid st else st)"

text \<open>
  \<^verbatim>\<open>wait_paused(expected, timeout)\<close>: the result says whether the counter was found
  equal to \<open>expected\<close>. While the coordinator waits nothing changes the counter in
  this model (the handlers have run), so the loop ends when the counter is right, when
  a \<^verbatim>\<open>FUTEX_WAIT\<close> fails with anything but \<^verbatim>\<open>EAGAIN\<close>, or when it times out.
\<close>

fun wait_paused :: "32 word \<Rightarrow> 32 word \<Rightarrow> futex_result list \<Rightarrow> bool" where
  "wait_paused expected current [] = (current = expected)"
| "wait_paused expected current (r # rs) =
     (if current = expected then True
      else if r = Woken \<or> r = Futex_fails EAGAIN then wait_paused expected current rs
      else False)"

text \<open>
  The body of the inner \<^verbatim>\<open>for (;;)\<close> loop for one directory entry; \<open>self\<close> is the
  pointer \<^verbatim>\<open>self\<close>. The second operand of \<^verbatim>\<open>&&\<close> is evaluated only when the first
  holds.
\<close>

definition scan_entry ::
  "suspend_env \<Rightarrow> 64 word \<Rightarrow> string \<Rightarrow> coordinator \<Rightarrow> coordinator option" where
  "scan_entry env self d_name st =
     (if d_name = ''.'' \<or> d_name = ''..'' then Some st
      else
        (let tid = atoi d_name in
         case records (reg st) self of
           None \<Rightarrow> None
         | Some s \<Rightarrow>
             if (scast tid :: 64 word) \<noteq> thread_tid s then
               do {
                 seen \<leftarrow> seen_thread tid (reg st);
                 if \<not> seen
                 then Some ((tgkill env tid st)\<lparr>thread_count := thread_count st + 1\<rparr>)
                 else Some st
               }
             else Some st))"

fun scan :: "suspend_env \<Rightarrow> 64 word \<Rightarrow> string list \<Rightarrow> coordinator \<Rightarrow> coordinator option" where
  "scan env self [] st = Some st"
| "scan env self (d_name # rest) st =
     do { st' \<leftarrow> scan_entry env self d_name st; scan env self rest st' }"

text \<open>
  The loop \<^verbatim>\<open>do { ... } while (old_thread_count != thread_count);\<close>. \<open>pass\<close>
  counts the passes, for the environment. \<open>None\<close> is a call that does not return.
\<close>

partial_function (option) suspend_loop ::
  "suspend_env \<Rightarrow> 64 word \<Rightarrow> nat \<Rightarrow> coordinator \<Rightarrow> coordinator option" where
  "suspend_loop env self pass st =
     do {
       let old_thread_count = thread_count st;
       st1 \<leftarrow> scan env self (task_names env pass) st;
       let reached = wait_paused (thread_count st1) (threads_paused st1) (futex_waits env pass);
       if old_thread_count \<noteq> thread_count st1
       then suspend_loop env self (pass + 1) st1
       else Some st1
     }"

declare suspend_loop.simps [code]

text \<open>
  \<^verbatim>\<open>suspend_other_threads(self)\<close>. Taking the lock, installing and restoring the
  \<^verbatim>\<open>SIGPROF\<close> handler and opening and closing the directory are not in the state.
\<close>

definition suspend_other_threads ::
  "suspend_env \<Rightarrow> 64 word \<Rightarrow> coordinator \<Rightarrow> coordinator option" where
  "suspend_other_threads env self st =
     suspend_loop env self 0 (st\<lparr>reg := reset_threads self (reg st), thread_count := 0\<rparr>)"

subsection \<open>A process with three threads\<close>

text \<open>
  Thread 100 has crashed; its record is at \<open>0x7000\<close>. Threads 101 and 102 are the
  other threads of the process.
\<close>

definition three_threads :: "(32 word \<Rightarrow> bool) \<Rightarrow> suspend_env" where
  "three_threads r =
     \<lparr>task_names = (\<lambda>_. [''.'', ''..'', ''100'', ''101'', ''102'']),
      responds = r,
      pause_frame = (\<lambda>tid. 0x8000 + 0x100 * ucast tid),
      pause_uctx = (\<lambda>tid. 0),
      futex_waits = (\<lambda>_. [])\<rparr>"

definition crashed_100 :: coordinator where
  "crashed_100 =
     \<lparr>reg = \<lparr>records = [0x7000 \<mapsto> \<lparr>thread_next = 0, thread_tid = 100, thread_uctx = 0\<rparr>],
             crashInfo = \<lparr>crashing_thread = 0, signal = 0, fault_address = 0, thread_list = 0\<rparr>\<rparr>,
      threads_paused = 0, thread_count = 0\<rparr>"

subsection \<open>A thread that never responds\<close>

lemma atoi_names: "atoi ''100'' = 100" "atoi ''101'' = 101" "atoi ''102'' = 102"
  by code_simp+

text \<open>The registry at the start of the first pass, and after thread 102 has paused.\<close>

definition registry_0 :: registry where
  "registry_0 =
     \<lparr>records = [0x7000 \<mapsto> \<lparr>thread_next = 0, thread_tid = 100, thread_uctx = 0\<rparr>],
      crashInfo = \<lparr>crashing_thread = 0, signal = 0, fault_address = 0, thread_list = 0x7000\<rparr>\<rparr>"

definition registry_1 :: registry where
  "registry_1 =
     \<lparr>records = [0x7000 \<mapsto> \<lparr>thread_next = 0, thread_tid = 100, thread_uctx = 0\<rparr>,
                 0xE600 \<mapsto> \<lparr>thread_next = 0x7000, thread_tid = 102, thread_uctx = 0\<rparr>],
      crashInfo = \<lparr>crashing_thread = 0, signal = 0, fault_address = 0, thread_list = 0xE600\<rparr>\<rparr>"

lemma seen_0: "seen_thread 101 registry_0 = Some False" "seen_thread 102 registry_0 = Some False"
  by (simp_all add: seen_thread_def registry_0_def seen_thread_walk.simps)

lemma seen_1: "seen_thread 101 registry_1 = Some False" "seen_thread 102 registry_1 = Some True"
  by (simp_all add: seen_thread_def registry_1_def seen_thread_walk.simps)

lemma pause_102:
  "pause_thread (three_threads r) 102 \<lparr>reg = registry_0, threads_paused = 0, thread_count = c\<rparr> =
     \<lparr>reg = registry_1, threads_paused = 1, thread_count = c\<rparr>"
  by (simp add: pause_thread_def three_threads_def notify_paused_def add_thread_def Let_def
      registry_0_def registry_1_def fun_upd_twist)

lemma scan_first_pass:
  "scan (three_threads (\<lambda>t. t = 102)) 0x7000 [''.'', ''..'', ''100'', ''101'', ''102'']
     \<lparr>reg = registry_0, threads_paused = 0, thread_count = c\<rparr> =
   Some \<lparr>reg = registry_1, threads_paused = 1, thread_count = c + 2\<rparr>"
proof -
  have r0: "records registry_0 0x7000 = Some \<lparr>thread_next = 0, thread_tid = 100, thread_uctx = 0\<rparr>"
    by (simp add: registry_0_def)
  have r1: "records registry_1 0x7000 = Some \<lparr>thread_next = 0, thread_tid = 100, thread_uctx = 0\<rparr>"
    by (simp add: registry_1_def)
  have resp: "responds (three_threads (\<lambda>t. t = 102)) t = (t = 102)" for t
    by (simp add: three_threads_def)
  show ?thesis
    by (simp add: scan_entry_def atoi_names Let_def r0 r1 seen_0 seen_1 tgkill_def resp pause_102)
qed

lemma scan_later_pass:
  "scan (three_threads (\<lambda>t. t = 102)) 0x7000 [''.'', ''..'', ''100'', ''101'', ''102'']
     \<lparr>reg = registry_1, threads_paused = 1, thread_count = c\<rparr> =
   Some \<lparr>reg = registry_1, threads_paused = 1, thread_count = c + 1\<rparr>"
proof -
  have r1: "records registry_1 0x7000 = Some \<lparr>thread_next = 0, thread_tid = 100, thread_uctx = 0\<rparr>"
    by (simp add: registry_1_def)
  have resp: "responds (three_threads (\<lambda>t. t = 102)) t = (t = 102)" for t
    by (simp add: three_threads_def)
  show ?thesis
    by (simp add: scan_entry_def atoi_names Let_def r1 seen_1 tgkill_def resp)
qed

text \<open>From either of the two states every pass sends one more signal to thread 101,
  so the loop condition holds again, and the loop never ends.\<close>

lemma suspend_loop_unresponsive:
  "suspend_loop (three_threads (\<lambda>t. t = 102)) 0x7000 pass
     \<lparr>reg = registry_0, threads_paused = 0, thread_count = c\<rparr> = None"
  "suspend_loop (three_threads (\<lambda>t. t = 102)) 0x7000 pass
     \<lparr>reg = registry_1, threads_paused = 1, thread_count = c\<rparr> = None"
proof -
  define env where "env = three_threads (\<lambda>t. t = 102)"
  define inv where "inv = (\<lambda>st :: coordinator.
     (\<exists>c. st = \<lparr>reg = registry_0, threads_paused = 0, thread_count = c\<rparr>) \<or>
     (\<exists>c. st = \<lparr>reg = registry_1, threads_paused = 1, thread_count = c\<rparr>))"
  have names: "task_names env pass = [''.'', ''..'', ''100'', ''101'', ''102'']" for pass
    by (simp add: env_def three_threads_def)
  have step: "\<exists>st1. scan env 0x7000 (task_names env pass) st = Some st1 \<and> inv st1 \<and>
      thread_count st \<noteq> thread_count st1" if "inv st" for st pass
  proof -
    from that consider c where "st = \<lparr>reg = registry_0, threads_paused = 0, thread_count = c\<rparr>"
      | c where "st = \<lparr>reg = registry_1, threads_paused = 1, thread_count = c\<rparr>"
      unfolding inv_def by blast
    then show ?thesis
    proof cases
      case 1
      have "scan env 0x7000 (task_names env pass) st =
          Some \<lparr>reg = registry_1, threads_paused = 1, thread_count = c + 2\<rparr>"
        unfolding names 1 unfolding env_def by (rule scan_first_pass)
      moreover have "inv \<lparr>reg = registry_1, threads_paused = 1, thread_count = c + 2\<rparr>"
        unfolding inv_def by blast
      ultimately show ?thesis using 1 by simp
    next
      case 2
      have "scan env 0x7000 (task_names env pass) st =
          Some \<lparr>reg = registry_1, threads_paused = 1, thread_count = c + 1\<rparr>"
        unfolding names 2 unfolding env_def by (rule scan_later_pass)
      moreover have "inv \<lparr>reg = registry_1, threads_paused = 1, thread_count = c + 1\<rparr>"
        unfolding inv_def by blast
      ultimately show ?thesis using 2 by simp
    qed
  qed
  have never: "env' = env \<and> self = 0x7000 \<longrightarrow> \<not> inv st"
    if "suspend_loop env' self pass st = Some y" for env' self pass st y
  proof (rule suspend_loop.raw_induct
      [where P = "\<lambda>env' self pass st y. env' = env \<and> self = 0x7000 \<longrightarrow> \<not> inv st", OF _ that])
    fix f env' self pass st y
    assume IH: "\<And>env' self pass st y. f env' self pass st = Some y \<Longrightarrow>
        env' = env \<and> self = 0x7000 \<longrightarrow> \<not> inv st"
      and body: "do {
         let old_thread_count = thread_count st;
         st1 \<leftarrow> scan env' self (task_names env' pass) st;
         let reached = wait_paused (thread_count st1) (threads_paused st1) (futex_waits env' pass);
         if old_thread_count \<noteq> thread_count st1
         then f env' self (pass + 1) st1
         else Some st1
       } = Some y"
    show "env' = env \<and> self = 0x7000 \<longrightarrow> \<not> inv st"
    proof (intro impI notI)
      assume e: "env' = env \<and> self = 0x7000" and i: "inv st"
      from step [OF i, of pass] obtain st1
        where st1: "scan env 0x7000 (task_names env pass) st = Some st1" "inv st1"
          "thread_count st \<noteq> thread_count st1"
        by blast
      from body e st1(1,3) have "f env 0x7000 (pass + 1) st1 = Some y"
        by (simp add: Let_def)
      from IH [OF this] st1(2) show False by simp
    qed
  qed
  have none: "suspend_loop env 0x7000 pass st = None" if "inv st" for st pass
  proof (cases "suspend_loop env 0x7000 pass st")
    case None
    then show ?thesis .
  next
    case (Some y)
    from never [OF Some] that show ?thesis by simp
  qed
  show "suspend_loop (three_threads (\<lambda>t. t = 102)) 0x7000 pass
     \<lparr>reg = registry_0, threads_paused = 0, thread_count = c\<rparr> = None"
    unfolding env_def [symmetric] by (rule none) (auto simp: inv_def)
  show "suspend_loop (three_threads (\<lambda>t. t = 102)) 0x7000 pass
     \<lparr>reg = registry_1, threads_paused = 1, thread_count = c\<rparr> = None"
    unfolding env_def [symmetric] by (rule none) (auto simp: inv_def)
qed

text \<open>
  Claim C5 fails on the code. Thread 100 crashes in a process whose other threads are
  101, which never runs the pause handler, and 102, which does. Every pass of
  \<^verbatim>\<open>suspend_other_threads\<close> finds thread 101 not yet seen, sends it the signal again
  and counts it again, so \<^verbatim>\<open>thread_count\<close> differs from \<^verbatim>\<open>old_thread_count\<close> after
  every pass: the call never returns. (When both threads respond it returns after the
  second pass, which sends nothing: \<open>suspend_other_threads_all_respond\<close>.)
\<close>

theorem suspend_other_threads_unresponsive:
  "suspend_other_threads (three_threads (\<lambda>t. t = 102)) 0x7000 crashed_100 = None"
proof -
  have "crashed_100\<lparr>reg := reset_threads 0x7000 (reg crashed_100), thread_count := 0\<rparr> =
      \<lparr>reg = registry_0, threads_paused = 0, thread_count = 0\<rparr>"
    by (simp add: crashed_100_def reset_threads_def registry_0_def)
  then show ?thesis
    by (simp add: suspend_other_threads_def suspend_loop_unresponsive)
qed

lemma suspend_other_threads_all_respond:
  "map_option (\<lambda>st. (thread_count st, threads_paused st))
     (suspend_other_threads (three_threads (\<lambda>_. True)) 0x7000 crashed_100) = Some (2, 2)"
  by code_simp

end
